theory Spec2Isabelle
  imports Complex_Main "HOL-Library.AList"
begin

section \<open>JSON-replacer: the recursive replacer \<^verbatim>\<open>replaceDogWithCat\<close>\<close>

text \<open>
  The development embeds \<^verbatim>\<open>replaceDogWithCat\<close> of \<^verbatim>\<open>src/utils/replacer.ts\<close>
  (the version with cycle detection and a depth limit) and proves properties of it.

  The function receives JavaScript values. Arrays and objects are reference values: the
  same container can be reached along several paths, and a container can contain itself.
  The cycle check of the source compares identities (a \<^verbatim>\<open>WeakSet\<close>), so the input is
  modelled as a value over a store: a scalar, or a reference to a container of the store.
\<close>

subsection \<open>Data model\<close>

text \<open>
  \<^item> \<open>prim\<close>: the scalars. The source only ever compares a scalar with the string
    \<^verbatim>\<open>'dog'\<close>; numbers are carried as real numbers (a JSON text has neither NaN nor
    infinities), the function never looks inside them.
  \<^item> \<open>jsval\<close>: a value as the function sees it, a scalar or a reference.
  \<^item> \<open>container\<close>: what a reference denotes. \<open>ArrayOf\<close> holds the elements in index
    order (\<^verbatim>\<open>Array.isArray\<close> is true), \<open>ObjectOf\<close> holds what \<^verbatim>\<open>Object.entries\<close> reports:
    the own enumerable string-keyed properties, in that order.
  \<^item> \<open>heap\<close>: the store, total: every reference denotes a container.
  \<^item> \<open>json\<close>: the returned data. Every container of the result is created by the call
    itself (\<^verbatim>\<open>[]\<close>, \<^verbatim>\<open>{}\<close>) and stored in exactly one place, so the result is a tree;
    an \<open>Object\<close> lists its own enumerable properties in order.
\<close>

type_synonym addr = nat

datatype prim = Null | Undefined | Bool bool | Num real | Str string

datatype jsval = Prim prim | Ref addr

datatype container = ArrayOf "jsval list" | ObjectOf "(string \<times> jsval) list"

type_synonym heap = "addr \<Rightarrow> container"

datatype json = Leaf prim | Array "json list" | Object "(string \<times> json) list"

text \<open>
  The three error classes with their public fields
  (\<^verbatim>\<open>ReplacementLimitExceededError(replacementCount, limit)\<close>,
  \<^verbatim>\<open>CircularReferenceError()\<close>, \<^verbatim>\<open>MaxDepthExceededError(maxDepth)\<close>) and the
  interface \<^verbatim>\<open>ReplacementResult\<close>. Counts, limits and depths are JavaScript numbers
  holding integers; they are modelled as unbounded integers.
\<close>

datatype error =
    ReplacementLimitExceededError int int
  | CircularReferenceError
  | MaxDepthExceededError int

record ReplacementResult =
  data :: json
  replacementCount :: int

definition DEFAULT_MAX_DEPTH :: int where
  "DEFAULT_MAX_DEPTH = 100"

subsection \<open>Property assignment on the result object\<close>

text \<open>
  \<^verbatim>\<open>result[key] = valResult.data\<close> on an object created by \<^verbatim>\<open>{}\<close>. For every key but
  one the assignment defines an own property: a new key is added after the existing ones,
  an existing key keeps its place and takes the new value (\<open>AList.update\<close> does exactly
  this). The key \<^verbatim>\<open>__proto__\<close> is the exception: \<^verbatim>\<open>Object.prototype\<close> has an accessor of
  that name, so the assignment calls its setter and defines no own property. The setter
  changes the prototype of \<^verbatim>\<open>result\<close> when the value is an object or \<^verbatim>\<open>null\<close> and does
  nothing otherwise; the prototype is not part of the own properties the model records.
  An input object can have an own property of that name: \<^verbatim>\<open>JSON.parse\<close> creates one for
  the text \<^verbatim>\<open>{"__proto__": 1}\<close>, and \<^verbatim>\<open>Object.entries\<close> reports it.
\<close>

definition setProp :: "(string \<times> json) list \<Rightarrow> string \<Rightarrow> json \<Rightarrow> (string \<times> json) list" where
  "setProp result key v =
     (if key = ''__proto__'' then result else AList.update key v result)"

subsection \<open>The function\<close>

text \<open>
  \<open>replaceDogWithCat h v maxReplacements currentCount visited depth maxDepth\<close> follows the
  source branch by branch: the depth check, the comparison with \<^verbatim>\<open>'dog'\<close>, arrays,
  objects, and every other value returned as it is. A \<^verbatim>\<open>throw\<close> is the value \<open>Inl\<close>,
  which every caller passes on unchanged (the source has no \<^verbatim>\<open>catch\<close>). The \<^verbatim>\<open>WeakSet\<close>
  is mutated by \<^verbatim>\<open>visited.add\<close> and shared by all recursive calls, so the set is passed in
  and returned. The two \<^verbatim>\<open>for ... of\<close> loops are \<open>arrayLoop\<close> and \<open>objectLoop\<close>, with
  the loop variables \<^verbatim>\<open>totalCount\<close> and \<^verbatim>\<open>result\<close> as arguments; they receive
  \<open>depth + 1\<close>, the depth the source passes for every child.

  The recursion terminates because a call at a depth above \<open>maxDepth\<close> returns at once:
  the distance to \<open>maxDepth + 2\<close> decreases at every descent, the length of the remaining
  elements inside a loop. The limits of the engine that runs the function (the size of
  its call stack, the precision of numbers above \<open>2 ^ 53\<close>) are not part of the model.
\<close>

function replaceDogWithCat ::
    "heap \<Rightarrow> jsval \<Rightarrow> int \<Rightarrow> int \<Rightarrow> addr set \<Rightarrow> int \<Rightarrow> int
      \<Rightarrow> error + (ReplacementResult \<times> addr set)"
  and arrayLoop ::
    "heap \<Rightarrow> jsval list \<Rightarrow> int \<Rightarrow> int \<Rightarrow> addr set \<Rightarrow> int \<Rightarrow> int \<Rightarrow> json list
      \<Rightarrow> error + (json list \<times> int \<times> addr set)"
  and objectLoop ::
    "heap \<Rightarrow> (string \<times> jsval) list \<Rightarrow> int \<Rightarrow> int \<Rightarrow> addr set \<Rightarrow> int \<Rightarrow> int
      \<Rightarrow> (string \<times> json) list \<Rightarrow> error + ((string \<times> json) list \<times> int \<times> addr set)"
where
  "replaceDogWithCat h v maxReplacements currentCount visited depth maxDepth =
     (if depth > maxDepth then Inl (MaxDepthExceededError maxDepth)
      else if v = Prim (Str ''dog'') then
        (let newCount = currentCount + 1 in
         if newCount > maxReplacements
         then Inl (ReplacementLimitExceededError newCount maxReplacements)
         else Inr (\<lparr>data = Leaf (Str ''cat''), replacementCount = newCount\<rparr>, visited))
      else (case v of
        Ref a \<Rightarrow>
          (case h a of
             ArrayOf items \<Rightarrow>
               (if a \<in> visited then Inl CircularReferenceError
                else (case arrayLoop h items maxReplacements currentCount (insert a visited)
                             (depth + 1) maxDepth [] of
                  Inl e \<Rightarrow> Inl e
                | Inr (result, totalCount, visited') \<Rightarrow>
                    Inr (\<lparr>data = Array result, replacementCount = totalCount\<rparr>, visited')))
           | ObjectOf entries \<Rightarrow>
               (if a \<in> visited then Inl CircularReferenceError
                else (case objectLoop h entries maxReplacements currentCount (insert a visited)
                             (depth + 1) maxDepth [] of
                  Inl e \<Rightarrow> Inl e
                | Inr (result, totalCount, visited') \<Rightarrow>
                    Inr (\<lparr>data = Object result, replacementCount = totalCount\<rparr>, visited'))))
      | Prim p \<Rightarrow> Inr (\<lparr>data = Leaf p, replacementCount = currentCount\<rparr>, visited)))"
| "arrayLoop h [] maxReplacements totalCount visited childDepth maxDepth result =
     Inr (result, totalCount, visited)"
| "arrayLoop h (item # rest) maxReplacements totalCount visited childDepth maxDepth result =
     (case replaceDogWithCat h item maxReplacements totalCount visited childDepth maxDepth of
        Inl e \<Rightarrow> Inl e
      | Inr (itemResult, visited') \<Rightarrow>
          arrayLoop h rest maxReplacements (replacementCount itemResult) visited'
            childDepth maxDepth (result @ [data itemResult]))"
| "objectLoop h [] maxReplacements totalCount visited childDepth maxDepth result =
     Inr (result, totalCount, visited)"
| "objectLoop h ((key, val) # rest) maxReplacements totalCount visited childDepth maxDepth result =
     (case replaceDogWithCat h val maxReplacements totalCount visited childDepth maxDepth of
        Inl e \<Rightarrow> Inl e
      | Inr (valResult, visited') \<Rightarrow>
          objectLoop h rest maxReplacements (replacementCount valResult) visited'
            childDepth maxDepth (setProp result key (data valResult)))"
  by pat_completeness auto
termination
  by (relation "inv_image (less_than <*lex*> less_than)
        (\<lambda>x. case x of
           Inl (h, v, mr, c, vis, d, md) \<Rightarrow> (nat (md + 2 - d), 0)
         | Inr (Inl (h, items, mr, c, vis, d, md, res)) \<Rightarrow> (nat (md + 2 - d), Suc (length items))
         | Inr (Inr (h, entries, mr, c, vis, d, md, res)) \<Rightarrow> (nat (md + 2 - d), Suc (length entries)))")
     auto

declare replaceDogWithCat.simps [simp del]

text \<open>
  A call that leaves the optional parameters out: \<^verbatim>\<open>currentCount = 0\<close>, a new empty
  \<^verbatim>\<open>WeakSet\<close>, \<^verbatim>\<open>depth = 0\<close> and \<^verbatim>\<open>maxDepth = DEFAULT_MAX_DEPTH\<close>. This is how the
  route handler calls the function. The caller sees the error or the result.
\<close>

definition replaceDogWithCatDefault :: "heap \<Rightarrow> jsval \<Rightarrow> int \<Rightarrow> error + ReplacementResult" where
  "replaceDogWithCatDefault h v maxReplacements =
     map_sum id fst (replaceDogWithCat h v maxReplacements 0 {} 0 DEFAULT_MAX_DEPTH)"

subsection \<open>Reading an input as a tree\<close>

text \<open>
  To speak about the occurrences, the nesting and the containers of an input, the part of
  the store a value reaches is read as a tree that records at every container the
  reference it was read from: \<open>inHeap h t\<close> says that the store holds the tree \<open>t\<close>, and
  \<open>root t\<close> is the value to pass to the function. The same reference may occur several
  times in a tree (a shared container); \<open>addrs t\<close> lists the references in the order of
  the traversal, so \<open>distinct (addrs t)\<close> says that no container is reached twice.
  \<open>height t\<close> is the depth of the deepest node, the root being at depth 0; \<open>dogs t\<close> counts
  the scalar values equal to \<^verbatim>\<open>'dog'\<close>; \<open>erase t\<close> is the tree as plain data.
\<close>

datatype atree =
    ALeaf prim
  | AArray addr "atree list"
  | AObject addr "(string \<times> atree) list"

fun root :: "atree \<Rightarrow> jsval" where
  "root (ALeaf p) = Prim p"
| "root (AArray a ts) = Ref a"
| "root (AObject a es) = Ref a"

fun inHeap :: "heap \<Rightarrow> atree \<Rightarrow> bool" where
  "inHeap h (ALeaf p) = True"
| "inHeap h (AArray a ts) =
     (h a = ArrayOf (map root ts) \<and> (\<forall>t \<in> set ts. inHeap h t))"
| "inHeap h (AObject a es) =
     (h a = ObjectOf (map (\<lambda>e. (fst e, root (snd e))) es) \<and> (\<forall>e \<in> set es. inHeap h (snd e)))"

fun addrs :: "atree \<Rightarrow> addr list" where
  "addrs (ALeaf p) = []"
| "addrs (AArray a ts) = a # concat (map addrs ts)"
| "addrs (AObject a es) = a # concat (map (\<lambda>e. addrs (snd e)) es)"

fun height :: "atree \<Rightarrow> nat" where
  "height (ALeaf p) = 0"
| "height (AArray a ts) = (if ts = [] then 0 else Suc (foldr max (map height ts) 0))"
| "height (AObject a es) =
     (if es = [] then 0 else Suc (foldr max (map (\<lambda>e. height (snd e)) es) 0))"

fun dogs :: "atree \<Rightarrow> nat" where
  "dogs (ALeaf p) = (if p = Str ''dog'' then 1 else 0)"
| "dogs (AArray a ts) = sum_list (map dogs ts)"
| "dogs (AObject a es) = sum_list (map (\<lambda>e. dogs (snd e)) es)"

fun erase :: "atree \<Rightarrow> json" where
  "erase (ALeaf p) = Leaf p"
| "erase (AArray a ts) = Array (map erase ts)"
| "erase (AObject a es) = Object (map (\<lambda>e. (fst e, erase (snd e))) es)"

text \<open>
  \<open>rebuilt t\<close> is the data the function builds for the tree \<open>t\<close>, with the property
  assignments of the source. \<open>plainKeys t\<close> holds when every object of \<open>t\<close> has distinct
  keys (as the own properties of an object always have) and none named \<^verbatim>\<open>__proto__\<close>.
\<close>

fun rebuilt :: "atree \<Rightarrow> json" where
  "rebuilt (ALeaf p) = Leaf (if p = Str ''dog'' then Str ''cat'' else p)"
| "rebuilt (AArray a ts) = Array (map rebuilt ts)"
| "rebuilt (AObject a es) =
     Object (foldl (\<lambda>acc e. setProp acc (fst e) (rebuilt (snd e))) [] es)"

fun plainKeys :: "atree \<Rightarrow> bool" where
  "plainKeys (ALeaf p) = True"
| "plainKeys (AArray a ts) = (\<forall>t \<in> set ts. plainKeys t)"
| "plainKeys (AObject a es) =
     (distinct (map fst es) \<and> ''__proto__'' \<notin> set (map fst es) \<and> (\<forall>e \<in> set es. plainKeys (snd e)))"

subsection \<open>The transformation as the specification words it\<close>

text \<open>
  The specification: every scalar equal to the match value is replaced by the replacement
  value in its place; arrays keep their length and the positions of their elements,
  objects keep their keys in their order; everything else is unchanged.
\<close>

fun replaced :: "json \<Rightarrow> json" where
  "replaced (Leaf p) = Leaf (if p = Str ''dog'' then Str ''cat'' else p)"
| "replaced (Array xs) = Array (map replaced xs)"
| "replaced (Object es) = Object (map (\<lambda>e. (fst e, replaced (snd e))) es)"

subsection \<open>The outcome of a call on a tree\<close>

text \<open>
  \<open>nodeOutcome t mr c vis d md R\<close> describes the result \<open>R\<close> of a call on the root of a
  tree \<open>t\<close> none of whose containers is reached twice: success returns the rebuilt
  data, the count raised by the number of matches and the containers of \<open>t\<close> marked
  as visited, and happens only within both limits; a failure is the replacement limit,
  carrying \<open>max c mr + 1\<close> and \<open>mr\<close>, when the tree has too many matches, or the depth limit
  when the tree is too deep.
\<close>

definition nodeOutcome ::
  "atree \<Rightarrow> int \<Rightarrow> int \<Rightarrow> addr set \<Rightarrow> int \<Rightarrow> int \<Rightarrow> error + (ReplacementResult \<times> addr set) \<Rightarrow> bool" where
  "nodeOutcome t mr c vis d md R =
     (case R of
        Inr (r, vis') \<Rightarrow>
          r = \<lparr>data = rebuilt t, replacementCount = c + int (dogs t)\<rparr> \<and>
          vis' = vis \<union> set (addrs t) \<and> d + int (height t) \<le> md \<and>
          c + int (dogs t) \<le> max c mr
      | Inl e \<Rightarrow>
          (e = ReplacementLimitExceededError (max c mr + 1) mr \<and> max c mr < c + int (dogs t)) \<or>
          (e = MaxDepthExceededError md \<and> md < d + int (height t)))"

subsection \<open>Errors and recursive calls\<close>

text \<open>
  \<open>errorPayload mr c md e\<close>: the fields an error of a call with limit \<open>mr\<close>, carried-in
  count \<open>c\<close> and depth limit \<open>md\<close> has: a replacement-limit error carries the would-be
  count \<open>max c mr + 1\<close> (that is \<open>mr + 1\<close> when the call starts within the limit) and the
  limit, a depth error carries the depth limit.
\<close>

definition errorPayload :: "int \<Rightarrow> int \<Rightarrow> int \<Rightarrow> error \<Rightarrow> bool" where
  "errorPayload mr c md e =
     (case e of
        ReplacementLimitExceededError n l \<Rightarrow> n = max c mr + 1 \<and> l = mr
      | CircularReferenceError \<Rightarrow> True
      | MaxDepthExceededError m \<Rightarrow> m = md)"

text \<open>
  \<open>subcall h mr md x y\<close>: the call with the arguments \<open>x\<close> (value, carried-in count,
  visited set, depth) makes the recursive call with the arguments \<open>y\<close>. It does so when
  its value is a container within the depth limit that is not yet visited, the value of
  \<open>y\<close> is one of its children, and the loop has processed the children before that one
  without an error; \<open>y\<close> receives the count and the visited set the loop has reached,
  and the depth plus one. The reflexive transitive closure of \<open>subcall\<close> gives the calls
  made at any depth. \<open>call\<close> is the function on such a tuple of arguments.
\<close>

inductive subcall ::
  "heap \<Rightarrow> int \<Rightarrow> int \<Rightarrow> jsval \<times> int \<times> addr set \<times> int \<Rightarrow> jsval \<times> int \<times> addr set \<times> int \<Rightarrow> bool"
  for h :: heap and mr :: int and md :: int
where
  array_item:
    "d \<le> md \<Longrightarrow> a \<notin> vis \<Longrightarrow> h a = ArrayOf (pre @ item # post) \<Longrightarrow>
     arrayLoop h pre mr c (insert a vis) (d + 1) md [] = Inr (res, c', vis') \<Longrightarrow>
     subcall h mr md (Ref a, c, vis, d) (item, c', vis', d + 1)"
| object_entry:
    "d \<le> md \<Longrightarrow> a \<notin> vis \<Longrightarrow> h a = ObjectOf (pre @ (key, val) # post) \<Longrightarrow>
     objectLoop h pre mr c (insert a vis) (d + 1) md [] = Inr (res, c', vis') \<Longrightarrow>
     subcall h mr md (Ref a, c, vis, d) (val, c', vis', d + 1)"

definition call :: "heap \<Rightarrow> int \<Rightarrow> int \<Rightarrow> jsval \<times> int \<times> addr set \<times> int \<Rightarrow> error + (ReplacementResult \<times> addr set)" where
  "call h mr md x = (case x of (v, c, vis, d) \<Rightarrow> replaceDogWithCat h v mr c vis d md)"

text \<open>
  \<open>raisedAt mr md x e\<close>: the call with the arguments \<open>x\<close> raises \<open>e\<close> by one of the three
  \<^verbatim>\<open>throw\<close> statements of the function body, not by a recursive call: the depth check,
  the limit check at a match, or the visited check at a container.
\<close>

definition raisedAt :: "int \<Rightarrow> int \<Rightarrow> jsval \<times> int \<times> addr set \<times> int \<Rightarrow> error \<Rightarrow> bool" where
  "raisedAt mr md x e =
     (case x of (v, c, vis, d) \<Rightarrow>
        (md < d \<and> e = MaxDepthExceededError md) \<or>
        (d \<le> md \<and> v = Prim (Str ''dog'') \<and> mr < c + 1 \<and>
           e = ReplacementLimitExceededError (c + 1) mr) \<or>
        (d \<le> md \<and> (case v of Ref a \<Rightarrow> a \<in> vis | Prim p \<Rightarrow> False) \<and>
           e = CircularReferenceError))"

subsection \<open>Measures of returned data\<close>

text \<open>
  The number of scalars equal to \<^verbatim>\<open>'dog'\<close>, the nesting depth and the condition on the keys,
  for returned data.
\<close>

fun dogsJ :: "json \<Rightarrow> nat" where
  "dogsJ (Leaf p) = (if p = Str ''dog'' then 1 else 0)"
| "dogsJ (Array xs) = sum_list (map dogsJ xs)"
| "dogsJ (Object es) = sum_list (map (\<lambda>e. dogsJ (snd e)) es)"

fun heightJ :: "json \<Rightarrow> nat" where
  "heightJ (Leaf p) = 0"
| "heightJ (Array xs) = (if xs = [] then 0 else Suc (foldr max (map heightJ xs) 0))"
| "heightJ (Object es) =
     (if es = [] then 0 else Suc (foldr max (map (\<lambda>e. heightJ (snd e)) es) 0))"

fun plainKeysJ :: "json \<Rightarrow> bool" where
  "plainKeysJ (Leaf p) = True"
| "plainKeysJ (Array xs) = (\<forall>x \<in> set xs. plainKeysJ x)"
| "plainKeysJ (Object es) =
     (distinct (map fst es) \<and> ''__proto__'' \<notin> set (map fst es) \<and> (\<forall>e \<in> set es. plainKeysJ (snd e)))"

subsection \<open>Storing a tree\<close>

text \<open>
  Returned data is handed to a second call as a value over a store. \<open>contents t\<close> lists
  the containers of a tree with their references and \<open>heapOf t\<close> is a store that holds
  them; \<open>containers j\<close> counts the arrays and objects of a value, the number of
  references a store needs for it.
\<close>

fun containers :: "json \<Rightarrow> nat" where
  "containers (Leaf p) = 0"
| "containers (Array xs) = Suc (sum_list (map containers xs))"
| "containers (Object es) = Suc (sum_list (map (\<lambda>e. containers (snd e)) es))"

fun contents :: "atree \<Rightarrow> (addr \<times> container) list" where
  "contents (ALeaf p) = []"
| "contents (AArray a ts) = (a, ArrayOf (map root ts)) # concat (map contents ts)"
| "contents (AObject a es) =
     (a, ObjectOf (map (\<lambda>e. (fst e, root (snd e))) es)) # concat (map (\<lambda>e. contents (snd e)) es)"

definition heapOf :: "atree \<Rightarrow> heap" where
  "heapOf t = (\<lambda>a. case map_of (contents t) a of Some c \<Rightarrow> c | None \<Rightarrow> ArrayOf [])"

subsection \<open>Example inputs\<close>

text \<open>
  Values used below, each with \<open>Ref 0\<close> as the value passed to the function.
  \<^item> \<open>petsHeap\<close>: \<^verbatim>\<open>{"pet": "dog", "dog": ["hotdog", "dog", 42]}\<close>; \<open>catsHeap\<close>: the data
    returned for it, \<^verbatim>\<open>{"pet": "cat", "dog": ["hotdog", "cat", 42]}\<close>.
  \<^item> \<open>plainHeap\<close>: \<^verbatim>\<open>{"dog": "pet", "list": ["hotdog", null]}\<close>.
  \<^item> \<open>twoDogsHeap\<close>: \<^verbatim>\<open>["dog", "dog"]\<close>; \<open>nestedHeap\<close>: \<^verbatim>\<open>[["dog"]]\<close>.
  \<^item> \<open>protoHeap\<close>: the value of the JSON text \<^verbatim>\<open>{"__proto__": "hotdog", "dog": "dog"}\<close>.
  \<^item> \<open>sharedHeap\<close>: \<^verbatim>\<open>[x, x]\<close> for one empty array \<^verbatim>\<open>x\<close>; \<open>selfHeap\<close>: the array
    \<^verbatim>\<open>a = ["dog", a]\<close>; \<open>loopHeap\<close>: the array \<^verbatim>\<open>a = [a]\<close>; \<open>ringHeap\<close>: a ring of 101
    arrays, each the only element of the one before it.
  \<^item> \<open>deepHeap\<close>: the value of the JSON text made of 101 opening brackets, \<^verbatim>\<open>null\<close> and
    101 closing brackets; container \<open>a\<close> is at depth \<open>a\<close>, the scalar at depth 101.
    \<open>deepDogsHeap\<close>: \<^verbatim>\<open>["dog", x]\<close> where \<^verbatim>\<open>x\<close> is \<^verbatim>\<open>"dog"\<close> inside 100 nested arrays, so
    that this second string is at depth 101.
  The trees are the readings of the values they are named after.
\<close>

definition petsHeap :: heap where
  "petsHeap = (\<lambda>a. if a = 0
      then ObjectOf [(''pet'', Prim (Str ''dog'')), (''dog'', Ref 1)]
      else ArrayOf [Prim (Str ''hotdog''), Prim (Str ''dog''), Prim (Num 42)])"

definition petsTree :: atree where
  "petsTree = AObject 0 [(''pet'', ALeaf (Str ''dog'')),
     (''dog'', AArray 1 [ALeaf (Str ''hotdog''), ALeaf (Str ''dog''), ALeaf (Num 42)])]"

definition catsHeap :: heap where
  "catsHeap = (\<lambda>a. if a = 0
      then ObjectOf [(''pet'', Prim (Str ''cat'')), (''dog'', Ref 1)]
      else ArrayOf [Prim (Str ''hotdog''), Prim (Str ''cat''), Prim (Num 42)])"

definition catsTree :: atree where
  "catsTree = AObject 0 [(''pet'', ALeaf (Str ''cat'')),
     (''dog'', AArray 1 [ALeaf (Str ''hotdog''), ALeaf (Str ''cat''), ALeaf (Num 42)])]"

definition plainHeap :: heap where
  "plainHeap = (\<lambda>a. if a = 0
      then ObjectOf [(''dog'', Prim (Str ''pet'')), (''list'', Ref 1)]
      else ArrayOf [Prim (Str ''hotdog''), Prim Null])"

definition plainTree :: atree where
  "plainTree = AObject 0 [(''dog'', ALeaf (Str ''pet'')),
     (''list'', AArray 1 [ALeaf (Str ''hotdog''), ALeaf Null])]"

definition twoDogsHeap :: heap where
  "twoDogsHeap = (\<lambda>a. ArrayOf [Prim (Str ''dog''), Prim (Str ''dog'')])"

definition twoDogsTree :: atree where
  "twoDogsTree = AArray 0 [ALeaf (Str ''dog''), ALeaf (Str ''dog'')]"

definition nestedHeap :: heap where
  "nestedHeap = (\<lambda>a. if a = 0 then ArrayOf [Ref 1] else ArrayOf [Prim (Str ''dog'')])"

definition nestedTree :: atree where
  "nestedTree = AArray 0 [AArray 1 [ALeaf (Str ''dog'')]]"

definition protoHeap :: heap where
  "protoHeap = (\<lambda>a. ObjectOf [(''__proto__'', Prim (Str ''hotdog'')), (''dog'', Prim (Str ''dog''))])"

definition sharedHeap :: heap where
  "sharedHeap = (\<lambda>a. if a = 0 then ArrayOf [Ref 1, Ref 1] else ArrayOf [])"

definition selfHeap :: heap where
  "selfHeap = (\<lambda>a. ArrayOf [Prim (Str ''dog''), Ref 0])"

definition loopHeap :: heap where
  "loopHeap = (\<lambda>a. ArrayOf [Ref 0])"

definition ringHeap :: heap where
  "ringHeap = (\<lambda>a. ArrayOf [Ref ((a + 1) mod 101)])"

definition deepHeap :: heap where
  "deepHeap = (\<lambda>a. if a < 100 then ArrayOf [Ref (a + 1)] else ArrayOf [Prim Null])"

definition deepDogsHeap :: heap where
  "deepDogsHeap = (\<lambda>a. if a = 0 then ArrayOf [Prim (Str ''dog''), Ref 1]
                       else if a < 100 then ArrayOf [Ref (a + 1)]
                       else ArrayOf [Prim (Str ''dog'')])"

section \<open>Properties\<close>

subsection \<open>One step of the function\<close>

lemma replace_too_deep:
  "maxDepth < depth \<Longrightarrow>
   replaceDogWithCat h v mr c vis depth maxDepth = Inl (MaxDepthExceededError maxDepth)"
  by (simp add: replaceDogWithCat.simps)

lemma replace_dog:
  "depth \<le> maxDepth \<Longrightarrow>
   replaceDogWithCat h (Prim (Str ''dog'')) mr c vis depth maxDepth =
     (if mr < c + 1 then Inl (ReplacementLimitExceededError (c + 1) mr)
      else Inr (\<lparr>data = Leaf (Str ''cat''), replacementCount = c + 1\<rparr>, vis))"
  by (simp add: replaceDogWithCat.simps Let_def)

lemma replace_prim:
  "depth \<le> maxDepth \<Longrightarrow> p \<noteq> Str ''dog'' \<Longrightarrow>
   replaceDogWithCat h (Prim p) mr c vis depth maxDepth =
     Inr (\<lparr>data = Leaf p, replacementCount = c\<rparr>, vis)"
  by (simp add: replaceDogWithCat.simps)

lemma replace_visited:
  "depth \<le> maxDepth \<Longrightarrow> a \<in> vis \<Longrightarrow>
   replaceDogWithCat h (Ref a) mr c vis depth maxDepth = Inl CircularReferenceError"
  by (simp add: replaceDogWithCat.simps split: container.split)

lemma replace_array:
  "depth \<le> maxDepth \<Longrightarrow> a \<notin> vis \<Longrightarrow> h a = ArrayOf items \<Longrightarrow>
   replaceDogWithCat h (Ref a) mr c vis depth maxDepth =
     (case arrayLoop h items mr c (insert a vis) (depth + 1) maxDepth [] of
        Inl e \<Rightarrow> Inl e
      | Inr (result, totalCount, vis') \<Rightarrow>
          Inr (\<lparr>data = Array result, replacementCount = totalCount\<rparr>, vis'))"
  by (simp add: replaceDogWithCat.simps)

lemma replace_object:
  "depth \<le> maxDepth \<Longrightarrow> a \<notin> vis \<Longrightarrow> h a = ObjectOf entries \<Longrightarrow>
   replaceDogWithCat h (Ref a) mr c vis depth maxDepth =
     (case objectLoop h entries mr c (insert a vis) (depth + 1) maxDepth [] of
        Inl e \<Rightarrow> Inl e
      | Inr (result, totalCount, vis') \<Rightarrow>
          Inr (\<lparr>data = Object result, replacementCount = totalCount\<rparr>, vis'))"
  by (simp add: replaceDogWithCat.simps)

lemma arrayLoop_append:
  "arrayLoop h (xs @ ys) mr c vis d md res =
     (case arrayLoop h xs mr c vis d md res of
        Inl e \<Rightarrow> Inl e
      | Inr (res', c', vis') \<Rightarrow> arrayLoop h ys mr c' vis' d md res')"
  by (induction xs arbitrary: c vis res) (auto split: sum.splits)

lemma objectLoop_append:
  "objectLoop h (xs @ ys) mr c vis d md res =
     (case objectLoop h xs mr c vis d md res of
        Inl e \<Rightarrow> Inl e
      | Inr (res', c', vis') \<Rightarrow> objectLoop h ys mr c' vis' d md res')"
  by (induction xs arbitrary: c vis res) (auto split: sum.splits)

subsection \<open>Order of the checks at one node\<close>

text \<open>
  C5: at every node the depth check comes first: a node deeper than \<open>maxDepth\<close> fails
  with \<open>MaxDepthExceededError maxDepth\<close> whatever its value is, a match and a container
  already visited included, and whatever the count and the limit are. At a container
  within the depth limit the cycle check comes before any child is visited: a container
  already in the visited set fails with \<open>CircularReferenceError\<close> whatever it contains.
\<close>

theorem C5_depth_check_first:
  "(maxDepth < depth \<longrightarrow>
      replaceDogWithCat h v mr c vis depth maxDepth = Inl (MaxDepthExceededError maxDepth)) \<and>
   (depth \<le> maxDepth \<and> a \<in> vis \<longrightarrow>
      replaceDogWithCat h (Ref a) mr c vis depth maxDepth = Inl CircularReferenceError)"
  by (simp add: replace_too_deep replace_visited)

theorem C5_depth_check_first_witness:
  "replaceDogWithCat (\<lambda>_. ArrayOf [Prim (Str ''dog'')]) (Ref 0) 0 0 {0} 1 0
     = Inl (MaxDepthExceededError 0) \<and>
   replaceDogWithCat (\<lambda>_. ArrayOf [Prim (Str ''dog'')]) (Ref 0) 0 0 {0} 0 0
     = Inl CircularReferenceError"
  using C5_depth_check_first [of 0 1 "\<lambda>_. ArrayOf [Prim (Str ''dog'')]" "Ref 0" 0 0 "{0}" 0]
        C5_depth_check_first [of 0 0 "\<lambda>_. ArrayOf [Prim (Str ''dog'')]" "Ref 0" 0 0 "{0}" 0]
  by simp

subsection \<open>Calls on trees\<close>

lemma foldr_max_le:
  "int (foldr max (map f xs) 0) \<le> k \<longleftrightarrow> 0 \<le> k \<and> (\<forall>x\<in>set xs. int (f x) \<le> k)"
  by (induction xs) auto

lemma height_array_le:
  "d + int (height (AArray a ts)) \<le> md \<longleftrightarrow>
     d \<le> md \<and> (\<forall>t\<in>set ts. d + 1 + int (height t) \<le> md)"
proof (cases "ts = []")
  case True
  then show ?thesis by simp
next
  case False
  then obtain t where t: "t \<in> set ts" by (cases ts) auto
  have "int (foldr max (map height ts) 0) \<le> md - d - 1 \<longleftrightarrow>
          0 \<le> md - d - 1 \<and> (\<forall>t\<in>set ts. int (height t) \<le> md - d - 1)"
    by (rule foldr_max_le)
  with False t show ?thesis by (auto simp: algebra_simps) 
qed

lemma height_object_le:
  "d + int (height (AObject a es)) \<le> md \<longleftrightarrow>
     d \<le> md \<and> (\<forall>e\<in>set es. d + 1 + int (height (snd e)) \<le> md)"
proof (cases "es = []")
  case True
  then show ?thesis by simp
next
  case False
  then obtain e where e: "e \<in> set es" by (cases es) auto
  have "int (foldr max (map (\<lambda>e. height (snd e)) es) 0) \<le> md - d - 1 \<longleftrightarrow>
          0 \<le> md - d - 1 \<and> (\<forall>e\<in>set es. int (height (snd e)) \<le> md - d - 1)"
    by (rule foldr_max_le)
  with False e show ?thesis by (auto simp: algebra_simps)
qed

lemma arrayLoop_outcome:
  assumes IH: "\<And>t c vis. t \<in> set ts \<Longrightarrow> inHeap h t \<Longrightarrow> distinct (addrs t) \<Longrightarrow>
            set (addrs t) \<inter> vis = {} \<Longrightarrow>
            nodeOutcome t mr c vis d md (replaceDogWithCat h (root t) mr c vis d md)"
    and "\<forall>t\<in>set ts. inHeap h t" and "distinct (concat (map addrs ts))"
    and "set (concat (map addrs ts)) \<inter> vis = {}"
  shows "case arrayLoop h (map root ts) mr c vis d md res of
           Inr (res', c', vis') \<Rightarrow>
             res' = res @ map rebuilt ts \<and> c' = c + int (sum_list (map dogs ts)) \<and>
             vis' = vis \<union> set (concat (map addrs ts)) \<and>
             (\<forall>t\<in>set ts. d + int (height t) \<le> md) \<and>
             c' \<le> max c mr
         | Inl e \<Rightarrow>
             (e = ReplacementLimitExceededError (max c mr + 1) mr \<and>
                max c mr < c + int (sum_list (map dogs ts))) \<or>
             (e = MaxDepthExceededError md \<and> (\<exists>t\<in>set ts. md < d + int (height t)))"
  using assms
proof (induction ts arbitrary: c vis res)
  case Nil
  then show ?case by simp
next
  case (Cons t ts)
  have head: "nodeOutcome t mr c vis d md (replaceDogWithCat h (root t) mr c vis d md)"
    using Cons.prems by (intro Cons.prems(1)) auto
  show ?case
  proof (cases "replaceDogWithCat h (root t) mr c vis d md")
    case (Inl e)
    with head show ?thesis by (auto simp: nodeOutcome_def)
  next
    case (Inr p)
    obtain r vis' where p: "p = (r, vis')" by (cases p)
    from head Inr p have r: "r = \<lparr>data = rebuilt t, replacementCount = c + int (dogs t)\<rparr>"
      and vis': "vis' = vis \<union> set (addrs t)" and ht: "d + int (height t) \<le> md"
      and c': "c + int (dogs t) \<le> max c mr"
      by (auto simp: nodeOutcome_def)
    have tail: "case arrayLoop h (map root ts) mr (c + int (dogs t)) vis' d md (res @ [rebuilt t]) of
           Inr (res', c', vis'') \<Rightarrow>
             res' = (res @ [rebuilt t]) @ map rebuilt ts \<and>
             c' = (c + int (dogs t)) + int (sum_list (map dogs ts)) \<and>
             vis'' = vis' \<union> set (concat (map addrs ts)) \<and>
             (\<forall>t\<in>set ts. d + int (height t) \<le> md) \<and>
             c' \<le> max (c + int (dogs t)) mr
         | Inl e \<Rightarrow>
             (e = ReplacementLimitExceededError (max (c + int (dogs t)) mr + 1) mr \<and>
                max (c + int (dogs t)) mr < (c + int (dogs t)) + int (sum_list (map dogs ts))) \<or>
             (e = MaxDepthExceededError md \<and> (\<exists>t\<in>set ts. md < d + int (height t)))"
      using Cons.prems c' vis' by (intro Cons.IH) auto
    show ?thesis
      using tail Inr p r vis' ht c' by (auto split: sum.splits)
  qed
qed

lemma objectLoop_outcome:
  assumes IH: "\<And>e c vis. e \<in> set es \<Longrightarrow> inHeap h (snd e) \<Longrightarrow> distinct (addrs (snd e)) \<Longrightarrow>
            set (addrs (snd e)) \<inter> vis = {} \<Longrightarrow>
            nodeOutcome (snd e) mr c vis d md (replaceDogWithCat h (root (snd e)) mr c vis d md)"
    and "\<forall>e\<in>set es. inHeap h (snd e)" and "distinct (concat (map (\<lambda>e. addrs (snd e)) es))"
    and "set (concat (map (\<lambda>e. addrs (snd e)) es)) \<inter> vis = {}"
  shows "case objectLoop h (map (\<lambda>e. (fst e, root (snd e))) es) mr c vis d md res of
           Inr (res', c', vis') \<Rightarrow>
             res' = foldl (\<lambda>acc e. setProp acc (fst e) (rebuilt (snd e))) res es \<and>
             c' = c + int (sum_list (map (\<lambda>e. dogs (snd e)) es)) \<and>
             vis' = vis \<union> set (concat (map (\<lambda>e. addrs (snd e)) es)) \<and>
             (\<forall>e\<in>set es. d + int (height (snd e)) \<le> md) \<and>
             c' \<le> max c mr
         | Inl e \<Rightarrow>
             (e = ReplacementLimitExceededError (max c mr + 1) mr \<and>
                max c mr < c + int (sum_list (map (\<lambda>e. dogs (snd e)) es))) \<or>
             (e = MaxDepthExceededError md \<and> (\<exists>e\<in>set es. md < d + int (height (snd e))))"
  using assms
proof (induction es arbitrary: c vis res)
  case Nil
  then show ?case by simp
next
  case (Cons e es)
  obtain k t where e: "e = (k, t)" by (cases e)
  have head: "nodeOutcome t mr c vis d md (replaceDogWithCat h (root t) mr c vis d md)"
    using Cons.prems(1) [where e=e and c=c and vis=vis] Cons.prems(2-) e by auto
  show ?case
  proof (cases "replaceDogWithCat h (root t) mr c vis d md")
    case (Inl err)
    with head e show ?thesis by (auto simp: nodeOutcome_def)
  next
    case (Inr p)
    obtain r vis' where p: "p = (r, vis')" by (cases p)
    from head Inr p have r: "r = \<lparr>data = rebuilt t, replacementCount = c + int (dogs t)\<rparr>"
      and vis': "vis' = vis \<union> set (addrs t)" and ht: "d + int (height t) \<le> md"
      and c': "c + int (dogs t) \<le> max c mr"
      by (auto simp: nodeOutcome_def)
    have tail: "case objectLoop h (map (\<lambda>e. (fst e, root (snd e))) es) mr (c + int (dogs t)) vis' d md
                   (setProp res k (rebuilt t)) of
           Inr (res', c', vis'') \<Rightarrow>
             res' = foldl (\<lambda>acc e. setProp acc (fst e) (rebuilt (snd e))) (setProp res k (rebuilt t)) es \<and>
             c' = (c + int (dogs t)) + int (sum_list (map (\<lambda>e. dogs (snd e)) es)) \<and>
             vis'' = vis' \<union> set (concat (map (\<lambda>e. addrs (snd e)) es)) \<and>
             (\<forall>e\<in>set es. d + int (height (snd e)) \<le> md) \<and>
             c' \<le> max (c + int (dogs t)) mr
         | Inl e \<Rightarrow>
             (e = ReplacementLimitExceededError (max (c + int (dogs t)) mr + 1) mr \<and>
                max (c + int (dogs t)) mr < (c + int (dogs t)) + int (sum_list (map (\<lambda>e. dogs (snd e)) es))) \<or>
             (e = MaxDepthExceededError md \<and> (\<exists>e\<in>set es. md < d + int (height (snd e))))"
      using Cons.prems c' vis' e by (intro Cons.IH) auto
    show ?thesis
      using tail Inr p r vis' ht c' e by (auto split: sum.splits)
  qed
qed

lemma node_outcome:
  "inHeap h t \<Longrightarrow> distinct (addrs t) \<Longrightarrow> set (addrs t) \<inter> vis = {} \<Longrightarrow>
   nodeOutcome t mr c vis d md (replaceDogWithCat h (root t) mr c vis d md)"
proof (induction t arbitrary: c vis d)
  case (ALeaf p)
  show ?case
  proof (cases "md < d")
    case True
    then show ?thesis by (simp add: replace_too_deep nodeOutcome_def)
  next
    case False
    with ALeaf show ?thesis
      by (cases "p = Str ''dog''") (auto simp: replace_dog replace_prim nodeOutcome_def)
  qed
next
  case (AArray a ts)
  show ?case
  proof (cases "md < d")
    case True
    then show ?thesis by (simp add: replace_too_deep nodeOutcome_def)
  next
    case False
    have loop: "case arrayLoop h (map root ts) mr c (insert a vis) (d + 1) md [] of
           Inr (res', c', vis') \<Rightarrow>
             res' = [] @ map rebuilt ts \<and> c' = c + int (sum_list (map dogs ts)) \<and>
             vis' = insert a vis \<union> set (concat (map addrs ts)) \<and>
             (\<forall>t\<in>set ts. d + 1 + int (height t) \<le> md) \<and>
             c' \<le> max c mr
         | Inl e \<Rightarrow>
             (e = ReplacementLimitExceededError (max c mr + 1) mr \<and>
                max c mr < c + int (sum_list (map dogs ts))) \<or>
             (e = MaxDepthExceededError md \<and> (\<exists>t\<in>set ts. md < d + 1 + int (height t)))"
      using AArray.prems by (intro arrayLoop_outcome AArray.IH) auto
    have unf: "replaceDogWithCat h (Ref a) mr c vis d md =
       (case arrayLoop h (map root ts) mr c (insert a vis) (d + 1) md [] of
          Inl e \<Rightarrow> Inl e
        | Inr (result, totalCount, vis') \<Rightarrow>
            Inr (\<lparr>data = Array result, replacementCount = totalCount\<rparr>, vis'))"
      using AArray.prems False by (intro replace_array) auto
    have hle: "d + int (height (AArray a ts)) \<le> md \<longleftrightarrow>
                 d \<le> md \<and> (\<forall>t\<in>set ts. d + 1 + int (height t) \<le> md)"
      by (rule height_array_le)
    show ?thesis
      unfolding nodeOutcome_def root.simps unf using loop hle False
      by (auto split: sum.splits simp del: height.simps)
  qed
next
  case (AObject a es)
  show ?case
  proof (cases "md < d")
    case True
    then show ?thesis by (simp add: replace_too_deep nodeOutcome_def)
  next
    case False
    have loop: "case objectLoop h (map (\<lambda>e. (fst e, root (snd e))) es) mr c (insert a vis) (d + 1) md [] of
           Inr (res', c', vis') \<Rightarrow>
             res' = foldl (\<lambda>acc e. setProp acc (fst e) (rebuilt (snd e))) [] es \<and>
             c' = c + int (sum_list (map (\<lambda>e. dogs (snd e)) es)) \<and>
             vis' = insert a vis \<union> set (concat (map (\<lambda>e. addrs (snd e)) es)) \<and>
             (\<forall>e\<in>set es. d + 1 + int (height (snd e)) \<le> md) \<and>
             c' \<le> max c mr
         | Inl e \<Rightarrow>
             (e = ReplacementLimitExceededError (max c mr + 1) mr \<and>
                max c mr < c + int (sum_list (map (\<lambda>e. dogs (snd e)) es))) \<or>
             (e = MaxDepthExceededError md \<and> (\<exists>e\<in>set es. md < d + 1 + int (height (snd e))))"
    proof (rule objectLoop_outcome)
      fix e c' vis'
      assume e: "e \<in> set es" and 1: "inHeap h (snd e)" and 2: "distinct (addrs (snd e))"
        and 3: "set (addrs (snd e)) \<inter> vis' = {}"
      have s: "snd e \<in> Basic_BNFs.snds e" by (cases e) simp
      show "nodeOutcome (snd e) mr c' vis' (d + 1) md
              (replaceDogWithCat h (root (snd e)) mr c' vis' (d + 1) md)"
        by (rule AObject.IH [OF e s 1 2 3])
    qed (use AObject.prems in auto)
    have unf: "replaceDogWithCat h (Ref a) mr c vis d md =
       (case objectLoop h (map (\<lambda>e. (fst e, root (snd e))) es) mr c (insert a vis) (d + 1) md [] of
          Inl e \<Rightarrow> Inl e
        | Inr (result, totalCount, vis') \<Rightarrow>
            Inr (\<lparr>data = Object result, replacementCount = totalCount\<rparr>, vis'))"
      using AObject.prems False by (intro replace_object) auto
    have hle: "d + int (height (AObject a es)) \<le> md \<longleftrightarrow>
                 d \<le> md \<and> (\<forall>e\<in>set es. d + 1 + int (height (snd e)) \<le> md)"
      by (rule height_object_le)
    show ?thesis
      unfolding nodeOutcome_def root.simps unf using loop hle False
      by (auto split: sum.splits simp del: height.simps)
  qed
qed

subsection \<open>The rebuilt data and the specified transformation\<close>

lemma update_new: "k \<notin> fst ` set acc \<Longrightarrow> AList.update k v acc = acc @ [(k, v)]"
  by (induction acc) auto

lemma foldl_setProp_plain:
  "distinct (map fst es) \<Longrightarrow> ''__proto__'' \<notin> fst ` set es \<Longrightarrow>
   fst ` set acc \<inter> fst ` set es = {} \<Longrightarrow>
   foldl (\<lambda>acc e. setProp acc (fst e) (f (snd e))) acc es = acc @ map (\<lambda>e. (fst e, f (snd e))) es"
proof (induction es arbitrary: acc)
  case Nil
  then show ?case by simp
next
  case (Cons e es)
  have k: "fst e \<notin> fst ` set acc" and p: "fst e \<noteq> ''__proto__''"
    using Cons.prems by auto
  have step: "setProp acc (fst e) (f (snd e)) = acc @ [(fst e, f (snd e))]"
    using k p by (simp add: setProp_def update_new)
  have "foldl (\<lambda>acc e. setProp acc (fst e) (f (snd e))) (acc @ [(fst e, f (snd e))]) es =
          (acc @ [(fst e, f (snd e))]) @ map (\<lambda>e. (fst e, f (snd e))) es"
    using Cons.prems by (intro Cons.IH) auto
  with step show ?case by simp
qed

lemma rebuilt_plain: "plainKeys t \<Longrightarrow> rebuilt t = replaced (erase t)"
proof (induction t)
  case (ALeaf p)
  show ?case by simp
next
  case (AArray a ts)
  then show ?case by simp
next
  case (AObject a es)
  have "foldl (\<lambda>acc e. setProp acc (fst e) (rebuilt (snd e))) [] es =
          [] @ map (\<lambda>e. (fst e, rebuilt (snd e))) es"
    using AObject.prems by (intro foldl_setProp_plain) auto
  moreover have "map (\<lambda>e. (fst e, rebuilt (snd e))) es =
                 map (\<lambda>e. (fst e, replaced (erase (snd e)))) es"
  proof (rule map_cong [OF refl])
    fix e assume e: "e \<in> set es"
    have s: "snd e \<in> Basic_BNFs.snds e" by (cases e) simp
    have "plainKeys (snd e)" using AObject.prems e by simp
    from AObject.IH [OF e s this]
    show "(fst e, rebuilt (snd e)) = (fst e, replaced (erase (snd e)))" by simp
  qed
  ultimately show ?case by (simp add: comp_def)
qed

text \<open>
  What the object loop builds in general: an object whose keys are distinct keeps every
  key but \<^verbatim>\<open>__proto__\<close>, in the order of the input, each with the rebuilt value.
\<close>

lemma foldl_setProp_keys:
  "distinct (map fst es) \<Longrightarrow> fst ` set acc \<inter> fst ` set es = {} \<Longrightarrow>
   foldl (\<lambda>acc e. setProp acc (fst e) (f (snd e))) acc es =
     acc @ map (\<lambda>e. (fst e, f (snd e))) (filter (\<lambda>e. fst e \<noteq> ''__proto__'') es)"
proof (induction es arbitrary: acc)
  case Nil
  then show ?case by simp
next
  case (Cons e es)
  show ?case
  proof (cases "fst e = ''__proto__''")
    case True
    have "foldl (\<lambda>acc e. setProp acc (fst e) (f (snd e))) acc es =
            acc @ map (\<lambda>e. (fst e, f (snd e))) (filter (\<lambda>e. fst e \<noteq> ''__proto__'') es)"
      using Cons.prems by (intro Cons.IH) auto
    with True show ?thesis by (simp add: setProp_def)
  next
    case False
    have k: "fst e \<notin> fst ` set acc" using Cons.prems by auto
    have step: "setProp acc (fst e) (f (snd e)) = acc @ [(fst e, f (snd e))]"
      using k False by (simp add: setProp_def update_new)
    have "foldl (\<lambda>acc e. setProp acc (fst e) (f (snd e))) (acc @ [(fst e, f (snd e))]) es =
            (acc @ [(fst e, f (snd e))]) @
              map (\<lambda>e. (fst e, f (snd e))) (filter (\<lambda>e. fst e \<noteq> ''__proto__'') es)"
      using Cons.prems by (intro Cons.IH) auto
    with step False show ?thesis by simp
  qed
qed

lemma rebuilt_object_keys:
  "distinct (map fst es) \<Longrightarrow>
   rebuilt (AObject a es) =
     Object (map (\<lambda>e. (fst e, rebuilt (snd e))) (filter (\<lambda>e. fst e \<noteq> ''__proto__'') es))"
  using foldl_setProp_keys [of es "[]" rebuilt] by simp

lemma replaced_no_dog: "dogs t = 0 \<Longrightarrow> replaced (erase t) = erase t"
proof (induction t)
  case (ALeaf p)
  then show ?case by (simp split: if_splits)
next
  case (AArray a ts)
  then show ?case by (simp add: map_idI)
next
  case (AObject a es)
  have "map (\<lambda>e. (fst e, replaced (erase (snd e)))) es = map (\<lambda>e. (fst e, erase (snd e))) es"
  proof (rule map_cong [OF refl])
    fix e assume e: "e \<in> set es"
    have s: "snd e \<in> Basic_BNFs.snds e" by (cases e) simp
    have "dogs (snd e) = 0" using AObject.prems e by simp
    from AObject.IH [OF e s this]
    show "(fst e, replaced (erase (snd e))) = (fst e, erase (snd e))" by simp
  qed
  then show ?case by (simp add: comp_def)
qed

lemma tree_success:
  assumes "inHeap h t" and "distinct (addrs t)" and "set (addrs t) \<inter> vis = {}"
    and "d + int (height t) \<le> md" and "dogs t = 0 \<or> c + int (dogs t) \<le> mr"
  shows "replaceDogWithCat h (root t) mr c vis d md =
           Inr (\<lparr>data = rebuilt t, replacementCount = c + int (dogs t)\<rparr>, vis \<union> set (addrs t))"
proof -
  have "nodeOutcome t mr c vis d md (replaceDogWithCat h (root t) mr c vis d md)"
    using assms by (intro node_outcome)
  with assms(4,5) show ?thesis
    by (cases "replaceDogWithCat h (root t) mr c vis d md") (auto simp: nodeOutcome_def max_def split: if_splits)
qed

lemma tree_too_deep:
  assumes "inHeap h t" and "distinct (addrs t)" and "set (addrs t) \<inter> vis = {}"
    and "md < d + int (height t)" and "dogs t = 0 \<or> c + int (dogs t) \<le> mr"
  shows "replaceDogWithCat h (root t) mr c vis d md = Inl (MaxDepthExceededError md)"
proof -
  have "nodeOutcome t mr c vis d md (replaceDogWithCat h (root t) mr c vis d md)"
    using assms by (intro node_outcome)
  with assms(4,5) show ?thesis
    by (cases "replaceDogWithCat h (root t) mr c vis d md") (auto simp: nodeOutcome_def max_def split: if_splits)
qed

lemma tree_over_limit:
  assumes "inHeap h t" and "distinct (addrs t)" and "set (addrs t) \<inter> vis = {}"
    and "d + int (height t) \<le> md" and "mr < c + int (dogs t)" and "c \<le> mr"
  shows "replaceDogWithCat h (root t) mr c vis d md =
           Inl (ReplacementLimitExceededError (mr + 1) mr)"
proof -
  have "nodeOutcome t mr c vis d md (replaceDogWithCat h (root t) mr c vis d md)"
    using assms by (intro node_outcome)
  with assms(4,5,6) show ?thesis
    by (cases "replaceDogWithCat h (root t) mr c vis d md") (auto simp: nodeOutcome_def max_def split: if_splits)
qed

subsection \<open>Exact count and unchanged inputs\<close>

text \<open>
  C1, as amended. Take an input that reads as a tree \<open>t\<close> in the store, with no container
  reached twice, no object key named \<^verbatim>\<open>__proto__\<close>, nested at most \<open>maxDepth\<close> levels
  and holding exactly \<open>k\<close> scalars equal to \<^verbatim>\<open>'dog'\<close>. For every \<open>maxReplacements \<ge> k\<close>
  the call returns normally with \<open>replacementCount = k\<close>; the data is the input with
  every such scalar replaced by \<^verbatim>\<open>'cat'\<close> in its place, arrays of the same length and
  order, objects with the same keys in the same order, everything else unchanged; and
  the containers marked as visited are those of \<open>t\<close>.
\<close>

theorem C1_exact_count:
  assumes "inHeap h t" and "distinct (addrs t)" and "plainKeys t"
    and "int (height t) \<le> maxDepth" and "dogs t = k" and "int k \<le> maxReplacements"
  shows "replaceDogWithCat h (root t) maxReplacements 0 {} 0 maxDepth =
           Inr (\<lparr>data = replaced (erase t), replacementCount = int k\<rparr>, set (addrs t))"
proof -
  have "replaceDogWithCat h (root t) maxReplacements 0 {} 0 maxDepth =
          Inr (\<lparr>data = rebuilt t, replacementCount = 0 + int (dogs t)\<rparr>, {} \<union> set (addrs t))"
    using assms by (intro tree_success) auto
  with assms(3,5) show ?thesis by (simp add: rebuilt_plain)
qed

text \<open>
  The theorem at \<^verbatim>\<open>{"pet": "dog", "dog": ["hotdog", "dog", 42]}\<close> with a limit of 2.
\<close>

theorem C1_exact_count_witness:
  "replaceDogWithCat petsHeap (Ref 0) 2 0 {} 0 DEFAULT_MAX_DEPTH =
     Inr (\<lparr>data = Object [(''pet'', Leaf (Str ''cat'')),
            (''dog'', Array [Leaf (Str ''hotdog''), Leaf (Str ''cat''), Leaf (Num 42)])],
          replacementCount = 2\<rparr>, {0, 1})"
  using C1_exact_count [of petsHeap petsTree DEFAULT_MAX_DEPTH 2 2]
  by (simp add: petsHeap_def petsTree_def DEFAULT_MAX_DEPTH_def insert_commute)

text \<open>
  C1 as stated, without the depth limit, fails: 101 nested arrays round \<^verbatim>\<open>null\<close> hold no
  match, the limit 100 is above the number of matches, and the call with the default
  depth limit raises \<open>MaxDepthExceededError\<close>.
\<close>

theorem C1_counterexample:
  "replaceDogWithCatDefault deepHeap (Ref 0) 100 = Inl (MaxDepthExceededError 100)"
  by (simp add: replaceDogWithCatDefault_def DEFAULT_MAX_DEPTH_def replaceDogWithCat.simps deepHeap_def)

text \<open>
  C8, as amended. Take an input that reads as a tree \<open>t\<close> in the store, with no container
  reached twice (neither a cycle nor a container shared by two branches), no object key
  named \<^verbatim>\<open>__proto__\<close>, nested at most \<open>maxDepth\<close> levels and holding no scalar equal to
  \<^verbatim>\<open>'dog'\<close>. The call returns data equal to the input, with \<open>replacementCount = 0\<close>,
  whatever the replacement limit is.
\<close>

theorem C8_no_match_unchanged:
  assumes "inHeap h t" and "distinct (addrs t)" and "plainKeys t"
    and "int (height t) \<le> maxDepth" and "dogs t = 0"
  shows "replaceDogWithCat h (root t) maxReplacements 0 {} 0 maxDepth =
           Inr (\<lparr>data = erase t, replacementCount = 0\<rparr>, set (addrs t))"
proof -
  have "replaceDogWithCat h (root t) maxReplacements 0 {} 0 maxDepth =
          Inr (\<lparr>data = rebuilt t, replacementCount = 0 + int (dogs t)\<rparr>, {} \<union> set (addrs t))"
    using assms by (intro tree_success) auto
  with assms(3,5) show ?thesis by (simp add: rebuilt_plain replaced_no_dog)
qed

text \<open>
  The theorem at \<^verbatim>\<open>{"dog": "pet", "list": ["hotdog", null]}\<close>.
\<close>

theorem C8_no_match_unchanged_witness:
  "replaceDogWithCat plainHeap (Ref 0) 1 0 {} 0 DEFAULT_MAX_DEPTH =
     Inr (\<lparr>data = Object [(''dog'', Leaf (Str ''pet'')),
            (''list'', Array [Leaf (Str ''hotdog''), Leaf Null])],
          replacementCount = 0\<rparr>, {0, 1})"
  using C8_no_match_unchanged [of plainHeap plainTree DEFAULT_MAX_DEPTH 1]
  by (simp add: plainHeap_def plainTree_def DEFAULT_MAX_DEPTH_def insert_commute)

text \<open>
  C8 as stated fails for a container that two branches share: \<^verbatim>\<open>[x, x]\<close> with one empty
  array \<^verbatim>\<open>x\<close> has no match, no cycle and depth 1, and the call raises
  \<open>CircularReferenceError\<close>.
\<close>

theorem C8_counterexample:
  "replaceDogWithCatDefault sharedHeap (Ref 0) 100 = Inl CircularReferenceError"
  by (simp add: replaceDogWithCatDefault_def DEFAULT_MAX_DEPTH_def replaceDogWithCat.simps sharedHeap_def)

subsection \<open>Every successful call has read a tree\<close>

text \<open>
  A call that returns has visited a finite part of the store, each container once: the
  input reads as a tree, and the outcome of the call is the one described above.
\<close>

lemma tree_visited:
  assumes "inHeap h t" and "distinct (addrs t)" and "set (addrs t) \<inter> vis = {}"
    and "replaceDogWithCat h (root t) mr c vis d md = Inr (r, vis')"
  shows "r = \<lparr>data = rebuilt t, replacementCount = c + int (dogs t)\<rparr> \<and>
         vis' = vis \<union> set (addrs t) \<and> d + int (height t) \<le> md \<and>
         c + int (dogs t) \<le> max c mr"
proof -
  have "nodeOutcome t mr c vis d md (replaceDogWithCat h (root t) mr c vis d md)"
    using assms(1-3) by (intro node_outcome)
  with assms(4) show ?thesis by (simp add: nodeOutcome_def)
qed

lemma success_reads_tree:
  shows "replaceDogWithCat h v mr c vis d md = Inr (r, vis') \<Longrightarrow>
           \<exists>t. root t = v \<and> inHeap h t \<and> distinct (addrs t) \<and> set (addrs t) \<inter> vis = {}"
    and "arrayLoop h items mr c vis d md res = Inr (res', c', vis'') \<Longrightarrow>
           \<exists>ts. map root ts = items \<and> (\<forall>t\<in>set ts. inHeap h t) \<and>
                distinct (concat (map addrs ts)) \<and> set (concat (map addrs ts)) \<inter> vis = {}"
    and "objectLoop h entries mr c vis d md ores = Inr (ores', c'', vis''') \<Longrightarrow>
           \<exists>es. map (\<lambda>e. (fst e, root (snd e))) es = entries \<and> (\<forall>e\<in>set es. inHeap h (snd e)) \<and>
                distinct (concat (map (\<lambda>e. addrs (snd e)) es)) \<and>
                set (concat (map (\<lambda>e. addrs (snd e)) es)) \<inter> vis = {}"
proof (induction h v mr c vis d md and h items mr c vis d md res and h entries mr c vis d md ores
       arbitrary: r vis' and res' c' vis'' and ores' c'' vis'''
       rule: replaceDogWithCat_arrayLoop_objectLoop.induct)
  case (1 h v mr c vis d md)
  have d: "d \<le> md" using "1.prems" by (cases "md < d") (simp_all add: replace_too_deep)
  show ?case
  proof (cases v)
    case (Prim p)
    have "root (ALeaf p) = v \<and> inHeap h (ALeaf p) \<and> distinct (addrs (ALeaf p)) \<and>
          set (addrs (ALeaf p)) \<inter> vis = {}"
      using Prim by simp
    then show ?thesis by blast
  next
    case (Ref a)
    have nv: "a \<notin> vis" using "1.prems" Ref d by (cases "a \<in> vis") (simp_all add: replace_visited)
    have nd: "v \<noteq> Prim (Str ''dog'')" using Ref by simp
    show ?thesis
    proof (cases "h a")
      case (ArrayOf items)
      from "1.prems" Ref d nv ArrayOf obtain res c' vis2 where
        loop: "arrayLoop h items mr c (insert a vis) (d + 1) md [] = Inr (res, c', vis2)"
        by (auto simp: replace_array split: sum.splits)
      from "1.IH"(1) [OF _ nd Ref ArrayOf nv loop] d obtain ts where
        ts: "map root ts = items" "\<forall>t\<in>set ts. inHeap h t" "distinct (concat (map addrs ts))"
            "set (concat (map addrs ts)) \<inter> insert a vis = {}"
        by auto
      have "root (AArray a ts) = v \<and> inHeap h (AArray a ts) \<and> distinct (addrs (AArray a ts)) \<and>
            set (addrs (AArray a ts)) \<inter> vis = {}"
        using ts Ref ArrayOf nv by auto
      then show ?thesis by blast
    next
      case (ObjectOf entries)
      from "1.prems" Ref d nv ObjectOf obtain res c' vis2 where
        loop: "objectLoop h entries mr c (insert a vis) (d + 1) md [] = Inr (res, c', vis2)"
        by (auto simp: replace_object split: sum.splits)
      from "1.IH"(2) [OF _ nd Ref ObjectOf nv loop] d obtain es where
        es: "map (\<lambda>e. (fst e, root (snd e))) es = entries" "\<forall>e\<in>set es. inHeap h (snd e)"
            "distinct (concat (map (\<lambda>e. addrs (snd e)) es))"
            "set (concat (map (\<lambda>e. addrs (snd e)) es)) \<inter> insert a vis = {}"
        by auto
      have "root (AObject a es) = v \<and> inHeap h (AObject a es) \<and> distinct (addrs (AObject a es)) \<and>
            set (addrs (AObject a es)) \<inter> vis = {}"
        using es Ref ObjectOf nv by auto
      then show ?thesis by blast
    qed
  qed
next
  case (2 h mr c vis d md res)
  have "map root [] = [] \<and> (\<forall>t\<in>set []. inHeap h t) \<and> distinct (concat (map addrs [])) \<and>
        set (concat (map addrs [])) \<inter> vis = {}" by simp
  then show ?case by blast
next
  case (3 h item rest mr c vis d md res)
  from "3.prems" obtain ir visH where
    head: "replaceDogWithCat h item mr c vis d md = Inr (ir, visH)"
    and tail: "arrayLoop h rest mr (replacementCount ir) visH d md (res @ [data ir]) = Inr (res', c', vis'')"
    by (auto split: sum.splits)
  from "3.IH"(1) [OF head] obtain t where
    t: "root t = item" "inHeap h t" "distinct (addrs t)" "set (addrs t) \<inter> vis = {}" by auto
  have visH: "visH = vis \<union> set (addrs t)"
    using tree_visited [OF t(2,3,4)] head t(1) by simp
  from "3.IH"(2) [OF head refl tail] obtain ts where
    ts: "map root ts = rest" "\<forall>t\<in>set ts. inHeap h t" "distinct (concat (map addrs ts))"
        "set (concat (map addrs ts)) \<inter> visH = {}" by auto
  have "map root (t # ts) = item # rest \<and> (\<forall>t\<in>set (t # ts). inHeap h t) \<and>
        distinct (concat (map addrs (t # ts))) \<and> set (concat (map addrs (t # ts))) \<inter> vis = {}"
    using t ts visH by auto
  then show ?case by (rule exI [where x = "t # ts"])
next
  case (4 h mr c vis d md ores)
  have "map (\<lambda>e. (fst e, root (snd e))) [] = [] \<and> (\<forall>e\<in>set []. inHeap h (snd e)) \<and>
        distinct (concat (map (\<lambda>e. addrs (snd e)) [])) \<and>
        set (concat (map (\<lambda>e. addrs (snd e)) [])) \<inter> vis = {}" by simp
  then show ?case by blast
next
  case (5 h key val rest mr c vis d md ores)
  from "5.prems" obtain vr visH where
    head: "replaceDogWithCat h val mr c vis d md = Inr (vr, visH)"
    and tail: "objectLoop h rest mr (replacementCount vr) visH d md (setProp ores key (data vr)) =
                 Inr (ores', c'', vis''')"
    by (auto split: sum.splits)
  from "5.IH"(1) [OF head] obtain t where
    t: "root t = val" "inHeap h t" "distinct (addrs t)" "set (addrs t) \<inter> vis = {}" by auto
  have visH: "visH = vis \<union> set (addrs t)"
    using tree_visited [OF t(2,3,4)] head t(1) by simp
  from "5.IH"(2) [OF head refl tail] obtain es where
    es: "map (\<lambda>e. (fst e, root (snd e))) es = rest" "\<forall>e\<in>set es. inHeap h (snd e)"
        "distinct (concat (map (\<lambda>e. addrs (snd e)) es))"
        "set (concat (map (\<lambda>e. addrs (snd e)) es)) \<inter> visH = {}" by auto
  have "map (\<lambda>e. (fst e, root (snd e))) ((key, t) # es) = (key, val) # rest \<and>
        (\<forall>e\<in>set ((key, t) # es). inHeap h (snd e)) \<and>
        distinct (concat (map (\<lambda>e. addrs (snd e)) ((key, t) # es))) \<and>
        set (concat (map (\<lambda>e. addrs (snd e)) ((key, t) # es))) \<inter> vis = {}"
    using t es visH by auto
  then show ?case by (rule exI [where x = "(key, t) # es"])
qed

subsection \<open>Counts, errors and recursive calls\<close>

lemma success_tree:
  assumes "replaceDogWithCat h v mr c vis d md = Inr (r, vis')"
  shows "\<exists>t. root t = v \<and> inHeap h t \<and> distinct (addrs t) \<and> set (addrs t) \<inter> vis = {} \<and>
             r = \<lparr>data = rebuilt t, replacementCount = c + int (dogs t)\<rparr> \<and>
             vis' = vis \<union> set (addrs t) \<and> d + int (height t) \<le> md \<and>
             c + int (dogs t) \<le> max c mr"
proof -
  from success_reads_tree(1) [OF assms] obtain t where
    t: "root t = v" "inHeap h t" "distinct (addrs t)" "set (addrs t) \<inter> vis = {}" by auto
  from tree_visited [OF t(2,3,4)] assms t(1)
  have "r = \<lparr>data = rebuilt t, replacementCount = c + int (dogs t)\<rparr> \<and>
         vis' = vis \<union> set (addrs t) \<and> d + int (height t) \<le> md \<and>
         c + int (dogs t) \<le> max c mr" by simp
  with t show ?thesis by blast
qed

lemma success_count:
  assumes "replaceDogWithCat h v mr c vis d md = Inr (r, vis')"
  shows "c \<le> replacementCount r \<and> replacementCount r \<le> max c mr \<and> vis \<subseteq> vis'"
  using success_tree [OF assms] by auto

lemma arrayLoop_count:
  "arrayLoop h items mr c vis d md res = Inr (res', c', vis') \<Longrightarrow>
   c \<le> c' \<and> c' \<le> max c mr \<and> vis \<subseteq> vis'"
proof (induction items arbitrary: c vis res)
  case Nil
  then show ?case by simp
next
  case (Cons item rest)
  from Cons.prems obtain ir visH where
    head: "replaceDogWithCat h item mr c vis d md = Inr (ir, visH)"
    and tail: "arrayLoop h rest mr (replacementCount ir) visH d md (res @ [data ir]) = Inr (res', c', vis')"
    by (auto split: sum.splits)
  from success_count [OF head] Cons.IH [OF tail] show ?case by auto
qed

lemma objectLoop_count:
  "objectLoop h entries mr c vis d md res = Inr (res', c', vis') \<Longrightarrow>
   c \<le> c' \<and> c' \<le> max c mr \<and> vis \<subseteq> vis'"
proof (induction entries arbitrary: c vis res)
  case Nil
  then show ?case by simp
next
  case (Cons entry rest)
  obtain key val where entry: "entry = (key, val)" by (cases entry)
  from Cons.prems entry obtain vr visH where
    head: "replaceDogWithCat h val mr c vis d md = Inr (vr, visH)"
    and tail: "objectLoop h rest mr (replacementCount vr) visH d md (setProp res key (data vr)) =
                 Inr (res', c', vis')"
    by (auto split: sum.splits)
  from success_count [OF head] Cons.IH [OF tail] show ?case by auto
qed

lemma error_payload:
  shows "replaceDogWithCat h v mr c vis d md = Inl e \<Longrightarrow> errorPayload mr c md e"
    and "arrayLoop h items mr c vis d md res = Inl e \<Longrightarrow> errorPayload mr c md e"
    and "objectLoop h entries mr c vis d md ores = Inl e \<Longrightarrow> errorPayload mr c md e"
proof (induction h v mr c vis d md and h items mr c vis d md res and h entries mr c vis d md ores
       arbitrary: e and e and e
       rule: replaceDogWithCat_arrayLoop_objectLoop.induct)
  case (1 h v mr c vis d md)
  show ?case
  proof (cases "md < d")
    case True
    with "1.prems" show ?thesis by (auto simp: replace_too_deep errorPayload_def)
  next
    case False
    then have d: "d \<le> md" by simp
    show ?thesis
    proof (cases v)
      case (Prim p)
      with "1.prems" d show ?thesis
        by (cases "p = Str ''dog''")
           (auto simp: replace_dog replace_prim errorPayload_def split: if_splits)
    next
      case (Ref a)
      have nd: "v \<noteq> Prim (Str ''dog'')" using Ref by simp
      show ?thesis
      proof (cases "a \<in> vis")
        case True
        with "1.prems" Ref d show ?thesis by (auto simp: replace_visited errorPayload_def)
      next
        case False
        show ?thesis
        proof (cases "h a")
          case (ArrayOf items)
          from "1.prems" Ref d False ArrayOf
          have "arrayLoop h items mr c (insert a vis) (d + 1) md [] = Inl e"
            by (auto simp: replace_array split: sum.splits)
          from "1.IH"(1) [OF _ nd Ref ArrayOf False this] d show ?thesis by simp
        next
          case (ObjectOf entries)
          from "1.prems" Ref d False ObjectOf
          have "objectLoop h entries mr c (insert a vis) (d + 1) md [] = Inl e"
            by (auto simp: replace_object split: sum.splits)
          from "1.IH"(2) [OF _ nd Ref ObjectOf False this] d show ?thesis by simp
        qed
      qed
    qed
  qed
next
  case (2 h mr c vis d md res)
  then show ?case by simp
next
  case (3 h item rest mr c vis d md res)
  show ?case
  proof (cases "replaceDogWithCat h item mr c vis d md")
    case (Inl e')
    with "3.prems" have "e' = e" by simp
    with "3.IH"(1) Inl show ?thesis by simp
  next
    case (Inr p)
    obtain ir visH where p: "p = (ir, visH)" by (cases p)
    from "3.prems" Inr p
    have tail: "arrayLoop h rest mr (replacementCount ir) visH d md (res @ [data ir]) = Inl e" by simp
    have "errorPayload mr (replacementCount ir) md e"
      using "3.IH"(2) [OF Inr p [symmetric] tail] .
    moreover have "max (replacementCount ir) mr = max c mr"
      using success_count [OF Inr [unfolded p]] by auto
    ultimately show ?thesis by (cases e) (simp_all add: errorPayload_def)
  qed
next
  case (4 h mr c vis d md ores)
  then show ?case by simp
next
  case (5 h key val rest mr c vis d md ores)
  show ?case
  proof (cases "replaceDogWithCat h val mr c vis d md")
    case (Inl e')
    with "5.prems" have "e' = e" by simp
    with "5.IH"(1) Inl show ?thesis by simp
  next
    case (Inr p)
    obtain vr visH where p: "p = (vr, visH)" by (cases p)
    from "5.prems" Inr p
    have tail: "objectLoop h rest mr (replacementCount vr) visH d md (setProp ores key (data vr)) = Inl e"
      by simp
    have "errorPayload mr (replacementCount vr) md e"
      using "5.IH"(2) [OF Inr p [symmetric] tail] .
    moreover have "max (replacementCount vr) mr = max c mr"
      using success_count [OF Inr [unfolded p]] by auto
    ultimately show ?thesis by (cases e) (simp_all add: errorPayload_def)
  qed
qed

lemma subcall_error:
  assumes "subcall h mr md x y" and "call h mr md y = Inl e"
  shows "call h mr md x = Inl e"
  using assms
proof (cases rule: subcall.cases)
  case (array_item d a vis pre item post c res c' vis')
  have "arrayLoop h (pre @ item # post) mr c (insert a vis) (d + 1) md [] = Inl e"
    using array_item assms(2) by (simp add: arrayLoop_append call_def)
  with array_item show ?thesis by (simp add: call_def replace_array)
next
  case (object_entry d a vis pre key val post c res c' vis')
  have "objectLoop h (pre @ (key, val) # post) mr c (insert a vis) (d + 1) md [] = Inl e"
    using object_entry assms(2) by (simp add: objectLoop_append call_def)
  with object_entry show ?thesis by (simp add: call_def replace_object)
qed

lemma reach_error:
  assumes "(subcall h mr md)\<^sup>*\<^sup>* x y" and "call h mr md y = Inl e"
  shows "call h mr md x = Inl e"
  using assms by (induction rule: converse_rtranclp_induct) (auto intro: subcall_error)



lemma subcall_marks:
  assumes "subcall h mr md x y"
  shows "\<exists>a. fst x = Ref a \<and> a \<in> fst (snd (snd y)) \<and> fst (snd (snd x)) \<subseteq> fst (snd (snd y)) \<and>
             snd (snd (snd y)) = snd (snd (snd x)) + 1"
  using assms
proof (cases rule: subcall.cases)
  case (array_item d a vis pre item post c res c' vis')
  with arrayLoop_count [OF array_item(6)] show ?thesis by auto
next
  case (object_entry d a vis pre key val post c res c' vis')
  with objectLoop_count [OF object_entry(6)] show ?thesis by auto
qed


subsection \<open>Where a failure comes from\<close>

lemma raisedAt_call: "raisedAt mr md x e \<Longrightarrow> call h mr md x = Inl e"
  by (cases x)
     (auto simp: raisedAt_def call_def replace_too_deep replace_dog replace_visited
           split: jsval.splits)



subsection \<open>The reading of a value is unique\<close>



subsection \<open>The three limits\<close>

text \<open>
  C3, as amended. The root is at depth 0 and every descent into a child of a container
  adds 1, so \<open>height t\<close> is the number of levels an input is nested to. Take an input
  that reads as a tree \<open>t\<close> with no container reached twice and at most
  \<open>maxReplacements\<close> matches. Nested to at most \<open>maxDepth\<close> levels (exactly \<open>maxDepth\<close>
  included) it is processed successfully; nested deeper (\<open>maxDepth + 1\<close> levels
  included) the call fails with \<open>MaxDepthExceededError\<close> carrying \<open>maxDepth\<close>, the
  parameter of the call, whatever \<open>DEFAULT_MAX_DEPTH\<close> is.
\<close>

theorem C3_depth_boundary:
  assumes "inHeap h t" and "distinct (addrs t)" and "int (dogs t) \<le> maxReplacements"
  shows "(int (height t) \<le> maxDepth \<longrightarrow>
            replaceDogWithCat h (root t) maxReplacements 0 {} 0 maxDepth =
              Inr (\<lparr>data = rebuilt t, replacementCount = int (dogs t)\<rparr>, set (addrs t))) \<and>
         (maxDepth < int (height t) \<longrightarrow>
            replaceDogWithCat h (root t) maxReplacements 0 {} 0 maxDepth =
              Inl (MaxDepthExceededError maxDepth))"
proof (intro conjI impI)
  assume "int (height t) \<le> maxDepth"
  then have "replaceDogWithCat h (root t) maxReplacements 0 {} 0 maxDepth =
          Inr (\<lparr>data = rebuilt t, replacementCount = 0 + int (dogs t)\<rparr>, {} \<union> set (addrs t))"
    using assms by (intro tree_success) auto
  then show "replaceDogWithCat h (root t) maxReplacements 0 {} 0 maxDepth =
          Inr (\<lparr>data = rebuilt t, replacementCount = int (dogs t)\<rparr>, set (addrs t))" by simp
next
  assume "maxDepth < int (height t)"
  then show "replaceDogWithCat h (root t) maxReplacements 0 {} 0 maxDepth =
          Inl (MaxDepthExceededError maxDepth)"
    using assms by (intro tree_too_deep) auto
qed

text \<open>
  The theorem at \<^verbatim>\<open>[["dog"]]\<close>, nested to 2 levels, with \<open>maxDepth\<close> 2 and 1.
\<close>

theorem C3_depth_boundary_witness:
  "replaceDogWithCat nestedHeap (Ref 0) 100 0 {} 0 2 =
     Inr (\<lparr>data = Array [Array [Leaf (Str ''cat'')]], replacementCount = 1\<rparr>, {0, 1}) \<and>
   replaceDogWithCat nestedHeap (Ref 0) 100 0 {} 0 1 = Inl (MaxDepthExceededError 1)"
  using C3_depth_boundary [of nestedHeap nestedTree 100 2]
        C3_depth_boundary [of nestedHeap nestedTree 100 1]
  by (simp add: nestedHeap_def nestedTree_def insert_commute)

text \<open>
  C3 as stated, whatever the input holds, fails: \<^verbatim>\<open>["dog", "dog"]\<close> is nested to exactly
  1 level, and with \<open>maxDepth = 1\<close> and a limit of one replacement it is not processed
  successfully.
\<close>

theorem C3_counterexample:
  "int (height twoDogsTree) = 1 \<and> inHeap twoDogsHeap twoDogsTree \<and>
   replaceDogWithCat twoDogsHeap (root twoDogsTree) 1 0 {} 0 1 =
     Inl (ReplacementLimitExceededError 2 1)"
  by (simp add: twoDogsHeap_def twoDogsTree_def replaceDogWithCat.simps)

text \<open>
  C2, as amended. Whenever a call that starts within the limit reaches, at any depth
  within the depth limit, a scalar equal to \<^verbatim>\<open>'dog'\<close> that would push the running total
  past the limit, the running total there is exactly \<open>maxReplacements\<close> (that many
  matches have succeeded before it) and the whole call raises
  \<open>ReplacementLimitExceededError\<close> carrying \<open>maxReplacements + 1\<close> and the limit. As a
  consequence, for an input that reads as a tree within the depth limit with no
  container reached twice, a call from count 0 succeeds when the tree has at most
  \<open>maxReplacements\<close> matches and raises that error when it has more.
\<close>

theorem C2_limit_boundary:
  "((subcall h mr md)\<^sup>*\<^sup>* (v, c, vis, d) (Prim (Str ''dog''), c', vis', d') \<and>
      d' \<le> md \<and> c \<le> mr \<and> mr < c' + 1 \<longrightarrow>
      c' = mr \<and>
      replaceDogWithCat h v mr c vis d md = Inl (ReplacementLimitExceededError (mr + 1) mr)) \<and>
   (inHeap h t \<and> distinct (addrs t) \<and> int (height t) \<le> md \<and> 0 \<le> mr \<longrightarrow>
      (int (dogs t) \<le> mr \<longrightarrow>
         replaceDogWithCat h (root t) mr 0 {} 0 md =
           Inr (\<lparr>data = rebuilt t, replacementCount = int (dogs t)\<rparr>, set (addrs t))) \<and>
      (mr < int (dogs t) \<longrightarrow>
         replaceDogWithCat h (root t) mr 0 {} 0 md =
           Inl (ReplacementLimitExceededError (mr + 1) mr)))"
proof (intro conjI impI)
  assume a: "(subcall h mr md)\<^sup>*\<^sup>* (v, c, vis, d) (Prim (Str ''dog''), c', vis', d') \<and>
      d' \<le> md \<and> c \<le> mr \<and> mr < c' + 1"
  then have "call h mr md (Prim (Str ''dog''), c', vis', d') =
               Inl (ReplacementLimitExceededError (c' + 1) mr)"
    by (simp add: call_def replace_dog)
  with a have "call h mr md (v, c, vis, d) = Inl (ReplacementLimitExceededError (c' + 1) mr)"
    by (blast intro: reach_error)
  then have e: "replaceDogWithCat h v mr c vis d md = Inl (ReplacementLimitExceededError (c' + 1) mr)"
    by (simp add: call_def)
  from error_payload(1) [OF e] a show c': "c' = mr" by (simp add: errorPayload_def)
  from e c' show "replaceDogWithCat h v mr c vis d md = Inl (ReplacementLimitExceededError (mr + 1) mr)"
    by simp
next
  assume a: "inHeap h t \<and> distinct (addrs t) \<and> int (height t) \<le> md \<and> 0 \<le> mr"
    and b: "int (dogs t) \<le> mr"
  have "replaceDogWithCat h (root t) mr 0 {} 0 md =
          Inr (\<lparr>data = rebuilt t, replacementCount = 0 + int (dogs t)\<rparr>, {} \<union> set (addrs t))"
    using a b by (intro tree_success) auto
  then show "replaceDogWithCat h (root t) mr 0 {} 0 md =
          Inr (\<lparr>data = rebuilt t, replacementCount = int (dogs t)\<rparr>, set (addrs t))" by simp
next
  assume a: "inHeap h t \<and> distinct (addrs t) \<and> int (height t) \<le> md \<and> 0 \<le> mr"
    and b: "mr < int (dogs t)"
  show "replaceDogWithCat h (root t) mr 0 {} 0 md = Inl (ReplacementLimitExceededError (mr + 1) mr)"
    using a b by (intro tree_over_limit) auto
qed

text \<open>
  In \<^verbatim>\<open>["dog", "dog"]\<close> with limit 1 the call reaches the second element with count 1.
\<close>

lemma twoDogs_second:
  "subcall twoDogsHeap 1 100 (Ref 0, 0, {}, 0) (Prim (Str ''dog''), 1, {0}, 0 + 1)"
  by (rule subcall.array_item [where pre = "[Prim (Str ''dog'')]" and post = "[]"
        and res = "[Leaf (Str ''cat'')]"])
     (simp_all add: twoDogsHeap_def replaceDogWithCat.simps)

text \<open>
  The theorem at \<^verbatim>\<open>["dog", "dog"]\<close>, with limits 1 and 2.
\<close>

theorem C2_limit_boundary_witness:
  "replaceDogWithCat twoDogsHeap (Ref 0) 1 0 {} 0 100 = Inl (ReplacementLimitExceededError 2 1) \<and>
   replaceDogWithCat twoDogsHeap (Ref 0) 2 0 {} 0 100 =
     Inr (\<lparr>data = Array [Leaf (Str ''cat''), Leaf (Str ''cat'')], replacementCount = 2\<rparr>, {0})"
proof -
  have r: "(subcall twoDogsHeap 1 100)\<^sup>*\<^sup>* (Ref 0, 0, {}, 0) (Prim (Str ''dog''), 1, {0}, 1)"
    using twoDogs_second by auto
  have t: "inHeap twoDogsHeap twoDogsTree \<and> distinct (addrs twoDogsTree) \<and>
           int (height twoDogsTree) \<le> 100 \<and> int (dogs twoDogsTree) = 2 \<and>
           root twoDogsTree = Ref 0 \<and> set (addrs twoDogsTree) = {0} \<and>
           rebuilt twoDogsTree = Array [Leaf (Str ''cat''), Leaf (Str ''cat'')]"
    by (simp add: twoDogsHeap_def twoDogsTree_def)
  from C2_limit_boundary [of twoDogsHeap 1 100 "Ref 0" 0 "{}" 0 1 "{0}" 1 twoDogsTree] r t
  have 1: "replaceDogWithCat twoDogsHeap (Ref 0) 1 0 {} 0 100 = Inl (ReplacementLimitExceededError 2 1)"
    by simp
  from C2_limit_boundary [of twoDogsHeap 2 100 "Ref 0" 0 "{}" 0 1 "{0}" 1 twoDogsTree] t
  have 2: "replaceDogWithCat twoDogsHeap (Ref 0) 2 0 {} 0 100 =
     Inr (\<lparr>data = Array [Leaf (Str ''cat''), Leaf (Str ''cat'')], replacementCount = 2\<rparr>, {0})"
    by simp
  from 1 2 show ?thesis by simp
qed

text \<open>
  C2 as stated, for every input with more matches than the limit, fails: the input
  \<^verbatim>\<open>["dog", [[ ... ["dog"] ... ]]]\<close> has two matches, the second at depth 101; with limit
  1 and the default depth limit the call reaches the second match and raises
  \<open>MaxDepthExceededError\<close>, not the replacement-limit error.
\<close>

theorem C2_counterexample:
  "replaceDogWithCatDefault deepDogsHeap (Ref 0) 1 = Inl (MaxDepthExceededError 100)"
  by (simp add: replaceDogWithCatDefault_def DEFAULT_MAX_DEPTH_def replaceDogWithCat.simps deepDogsHeap_def)

lemma subcall_vis:
  "subcall h mr md x y \<Longrightarrow> fst (snd (snd x)) \<subseteq> fst (snd (snd y))"
  using subcall_marks by blast

lemma reach_vis:
  "(subcall h mr md)\<^sup>*\<^sup>* x y \<Longrightarrow> fst (snd (snd x)) \<subseteq> fst (snd (snd y))"
  by (induction rule: rtranclp_induct) (auto dest: subcall_vis)

lemma back_reference_marked:
  assumes "(subcall h mr md)\<^sup>+\<^sup>+ (Ref a, c, vis, d) (w, c', vis', d')"
  shows "a \<in> vis'"
proof -
  from assms obtain z where 1: "subcall h mr md (Ref a, c, vis, d) z"
    and 2: "(subcall h mr md)\<^sup>*\<^sup>* z (w, c', vis', d')"
    by (auto dest: tranclpD)
  from subcall_marks [OF 1] have "a \<in> fst (snd (snd z))" by auto
  with reach_vis [OF 2] show ?thesis by auto
qed

text \<open>
  C4, as amended. Whenever a call reaches, at any depth within the depth limit, a
  container that is already in the visited set, the whole call raises
  \<open>CircularReferenceError\<close>. The visited set only grows during a call and a container is
  added before its children are visited. So the first part covers a container reached
  again from a later branch after an earlier branch has been completed, and the second
  part follows: a container whose own call reaches it again, directly or through other
  containers, fails with that error.
\<close>

theorem C4_revisit_is_circular:
  "((subcall h mr md)\<^sup>*\<^sup>* (v, c, vis, d) (Ref a, c', vis', d') \<and> a \<in> vis' \<and> d' \<le> md \<longrightarrow>
      replaceDogWithCat h v mr c vis d md = Inl CircularReferenceError) \<and>
   ((subcall h mr md)\<^sup>+\<^sup>+ (Ref a, c, vis, d) (Ref a, c', vis', d') \<and> d' \<le> md \<longrightarrow>
      replaceDogWithCat h (Ref a) mr c vis d md = Inl CircularReferenceError)"
proof (intro conjI impI)
  assume a: "(subcall h mr md)\<^sup>*\<^sup>* (v, c, vis, d) (Ref a, c', vis', d') \<and> a \<in> vis' \<and> d' \<le> md"
  then have "call h mr md (Ref a, c', vis', d') = Inl CircularReferenceError"
    by (simp add: call_def replace_visited)
  with a have "call h mr md (v, c, vis, d) = Inl CircularReferenceError"
    by (blast intro: reach_error)
  then show "replaceDogWithCat h v mr c vis d md = Inl CircularReferenceError"
    by (simp add: call_def)
next
  assume a: "(subcall h mr md)\<^sup>+\<^sup>+ (Ref a, c, vis, d) (Ref a, c', vis', d') \<and> d' \<le> md"
  then have "a \<in> vis'" by (blast intro: back_reference_marked)
  with a have "call h mr md (Ref a, c', vis', d') = Inl CircularReferenceError"
    by (simp add: call_def replace_visited)
  moreover from a have "(subcall h mr md)\<^sup>*\<^sup>* (Ref a, c, vis, d) (Ref a, c', vis', d')"
    by (simp add: tranclp_into_rtranclp)
  ultimately have "call h mr md (Ref a, c, vis, d) = Inl CircularReferenceError"
    by (rule reach_error [rotated])
  then show "replaceDogWithCat h (Ref a) mr c vis d md = Inl CircularReferenceError"
    by (simp add: call_def)
qed

text \<open>
  The array \<^verbatim>\<open>a = ["dog", a]\<close> reaches itself at depth 1, and \<^verbatim>\<open>[x, x]\<close> reaches \<^verbatim>\<open>x\<close> a
  second time after the first element has been completed.
\<close>

lemma self_second:
  "subcall selfHeap 100 100 (Ref 0, 0, {}, 0) (Ref 0, 1, {0}, 0 + 1)"
  by (rule subcall.array_item [where pre = "[Prim (Str ''dog'')]" and post = "[]"
        and res = "[Leaf (Str ''cat'')]"])
     (simp_all add: selfHeap_def replaceDogWithCat.simps)

lemma shared_second:
  "subcall sharedHeap 100 100 (Ref 0, 0, {}, 0) (Ref 1, 0, {0, 1}, 0 + 1)"
  by (rule subcall.array_item [where pre = "[Ref 1]" and post = "[]" and res = "[Array []]"])
     (simp_all add: sharedHeap_def replaceDogWithCat.simps insert_commute)

text \<open>
  The theorem at the self-referencing array and at the array with a shared element.
\<close>

theorem C4_revisit_is_circular_witness:
  "replaceDogWithCat sharedHeap (Ref 0) 100 0 {} 0 100 = Inl CircularReferenceError \<and>
   replaceDogWithCat selfHeap (Ref 0) 100 0 {} 0 100 = Inl CircularReferenceError"
proof -
  have 1: "(subcall selfHeap 100 100)\<^sup>+\<^sup>+ (Ref 0, 0, {}, 0) (Ref 0, 1, {0}, 1)"
    using self_second by auto
  have 2: "(subcall sharedHeap 100 100)\<^sup>*\<^sup>* (Ref 0, 0, {}, 0) (Ref 1, 0, {0, 1}, 1)"
    using shared_second by auto
  from C4_revisit_is_circular [of sharedHeap 100 100 "Ref 0" 0 "{}" 0 1 0 "{0, 1}" 1] 2
  have s: "replaceDogWithCat sharedHeap (Ref 0) 100 0 {} 0 100 = Inl CircularReferenceError"
    by simp
  from C4_revisit_is_circular [of selfHeap 100 100 "Ref 0" 0 "{}" 0 0 1 "{0}" 1] 1
  have t: "replaceDogWithCat selfHeap (Ref 0) 100 0 {} 0 100 = Inl CircularReferenceError"
    by simp
  from s t show ?thesis by simp
qed

text \<open>
  C4 as stated, whatever the depth, fails: in a ring of 101 arrays, each the only
  element of the one before, the first array is reached a second time at depth 101, and
  the call with the default depth limit raises \<open>MaxDepthExceededError\<close>. So does the
  array \<^verbatim>\<open>a = [a]\<close> with \<open>maxDepth = 0\<close>: the call on it makes a recursive call on the
  same array, then in the visited set, at depth 1.
\<close>

theorem C4_counterexample:
  "replaceDogWithCatDefault ringHeap (Ref 0) 100 = Inl (MaxDepthExceededError 100) \<and>
   subcall loopHeap 100 0 (Ref 0, 0, {}, 0) (Ref 0, 0, {0}, 1) \<and>
   replaceDogWithCat loopHeap (Ref 0) 100 0 {} 0 0 = Inl (MaxDepthExceededError 0)"
proof -
  have "subcall loopHeap 100 0 (Ref 0, 0, {}, 0) (Ref 0, 0, {0}, 0 + 1)"
    by (rule subcall.array_item [where pre = "[]" and post = "[]" and res = "[]"])
       (simp_all add: loopHeap_def)
  then show ?thesis
    by (simp add: replaceDogWithCatDefault_def DEFAULT_MAX_DEPTH_def replaceDogWithCat.simps
          ringHeap_def loopHeap_def)
qed

subsection \<open>Keys, counts and failures\<close>

text \<open>
  C7: only values are candidates for replacement, and the result object is meant to have
  the keys of the input object. The function misses one key. For the input
  \<^verbatim>\<open>{"__proto__": "hotdog", "dog": "dog"}\<close> the key \<^verbatim>\<open>dog\<close> is kept, with its value
  replaced, but the result has no key \<^verbatim>\<open>__proto__\<close>: the assignment
  \<^verbatim>\<open>result[key] = valResult.data\<close> does not define a property of that name, and the
  entry is lost. (A scalar other than \<^verbatim>\<open>'dog'\<close> is returned as it is by \<open>replace_prim\<close>,
  and every other key is kept by \<open>rebuilt_object_keys\<close>.)
\<close>

theorem C7_proto_key_dropped:
  "replaceDogWithCatDefault protoHeap (Ref 0) 100 =
     Inr \<lparr>data = Object [(''dog'', Leaf (Str ''cat''))], replacementCount = 1\<rparr>"
  by (simp add: replaceDogWithCatDefault_def DEFAULT_MAX_DEPTH_def replaceDogWithCat.simps
        protoHeap_def setProp_def)




lemma pets_result:
  "replaceDogWithCat petsHeap (Ref 0) 100 0 {} 0 100 =
     Inr (\<lparr>data = Object [(''pet'', Leaf (Str ''cat'')),
            (''dog'', Array [Leaf (Str ''hotdog''), Leaf (Str ''cat''), Leaf (Num 42)])],
          replacementCount = 2\<rparr>, {0, 1})"
  by (simp add: petsHeap_def replaceDogWithCat.simps setProp_def insert_commute)





subsection \<open>The data a call returns\<close>

lemma erase_dogs: "dogsJ (erase t) = dogs t"
proof (induction t)
  case (ALeaf p)
  show ?case by simp
next
  case (AArray a ts)
  have eq: "map (dogsJ \<circ> erase) ts = map dogs ts"
    by (rule map_cong [OF refl]) (simp add: AArray.IH)
  show ?case by (simp add: eq)
next
  case (AObject a es)
  have eq: "map (\<lambda>e. dogsJ (erase (snd e))) es = map (\<lambda>e. dogs (snd e)) es"
  proof (rule map_cong [OF refl])
    fix e assume e: "e \<in> set es"
    have s: "snd e \<in> Basic_BNFs.snds e" by (cases e) simp
    show "dogsJ (erase (snd e)) = dogs (snd e)" by (rule AObject.IH [OF e s])
  qed
  show ?case by (simp add: comp_def eq)
qed

lemma erase_height: "heightJ (erase t) = height t"
proof (induction t)
  case (ALeaf p)
  show ?case by simp
next
  case (AArray a ts)
  have eq: "map (heightJ \<circ> erase) ts = map height ts"
    by (rule map_cong [OF refl]) (simp add: AArray.IH)
  show ?case by (simp add: eq)
next
  case (AObject a es)
  have eq: "map (\<lambda>e. heightJ (erase (snd e))) es = map (\<lambda>e. height (snd e)) es"
  proof (rule map_cong [OF refl])
    fix e assume e: "e \<in> set es"
    have s: "snd e \<in> Basic_BNFs.snds e" by (cases e) simp
    show "heightJ (erase (snd e)) = height (snd e)" by (rule AObject.IH [OF e s])
  qed
  show ?case by (simp add: comp_def eq)
qed

lemma erase_plain: "plainKeysJ (erase t) = plainKeys t"
proof (induction t)
  case (ALeaf p)
  show ?case by simp
next
  case (AArray a ts)
  then show ?case by simp
next
  case (AObject a es)
  have "(\<forall>e\<in>set es. plainKeysJ (erase (snd e))) = (\<forall>e\<in>set es. plainKeys (snd e))"
  proof (rule ball_cong [OF refl])
    fix e assume e: "e \<in> set es"
    have s: "snd e \<in> Basic_BNFs.snds e" by (cases e) simp
    show "plainKeysJ (erase (snd e)) = plainKeys (snd e)" by (rule AObject.IH [OF e s])
  qed
  then show ?case by (simp add: comp_def image_image)
qed

lemma update_subset: "set (AList.update k v al) \<subseteq> insert (k, v) (set al)"
  by (induction al) auto

lemma foldl_setProp_props:
  "set (foldl (\<lambda>acc e. setProp acc (fst e) (f (snd e))) acc es)
     \<subseteq> set acc \<union> (\<lambda>e. (fst e, f (snd e))) ` set es \<and>
   (distinct (map fst acc) \<longrightarrow>
      distinct (map fst (foldl (\<lambda>acc e. setProp acc (fst e) (f (snd e))) acc es))) \<and>
   (''__proto__'' \<notin> fst ` set acc \<longrightarrow>
      ''__proto__'' \<notin> fst ` set (foldl (\<lambda>acc e. setProp acc (fst e) (f (snd e))) acc es))"
proof (induction es arbitrary: acc)
  case Nil
  show ?case by simp
next
  case (Cons e es)
  let ?acc = "setProp acc (fst e) (f (snd e))"
  have 1: "set ?acc \<subseteq> insert (fst e, f (snd e)) (set acc)"
    using update_subset [of "fst e" "f (snd e)" acc] by (auto simp: setProp_def)
  have 2: "distinct (map fst acc) \<longrightarrow> distinct (map fst ?acc)"
    by (simp add: setProp_def distinct_update)
  have 3: "''__proto__'' \<notin> fst ` set acc \<longrightarrow> ''__proto__'' \<notin> fst ` set ?acc"
    by (auto simp: setProp_def dom_update)
  from Cons.IH [of ?acc] 1 2 3 show ?case by auto
qed

lemma heightJ_array_le:
  "d + int (heightJ (Array xs)) \<le> md \<longleftrightarrow>
     d \<le> md \<and> (\<forall>x\<in>set xs. d + 1 + int (heightJ x) \<le> md)"
proof (cases "xs = []")
  case True
  then show ?thesis by simp
next
  case False
  then obtain x where x: "x \<in> set xs" by (cases xs) auto
  have "int (foldr max (map heightJ xs) 0) \<le> md - d - 1 \<longleftrightarrow>
          0 \<le> md - d - 1 \<and> (\<forall>x\<in>set xs. int (heightJ x) \<le> md - d - 1)"
    by (rule foldr_max_le)
  with False x show ?thesis by (auto simp: algebra_simps)
qed

lemma heightJ_object_le:
  "d + int (heightJ (Object es)) \<le> md \<longleftrightarrow>
     d \<le> md \<and> (\<forall>e\<in>set es. d + 1 + int (heightJ (snd e)) \<le> md)"
proof (cases "es = []")
  case True
  then show ?thesis by simp
next
  case False
  then obtain e where e: "e \<in> set es" by (cases es) auto
  have "int (foldr max (map (\<lambda>e. heightJ (snd e)) es) 0) \<le> md - d - 1 \<longleftrightarrow>
          0 \<le> md - d - 1 \<and> (\<forall>e\<in>set es. int (heightJ (snd e)) \<le> md - d - 1)"
    by (rule foldr_max_le)
  with False e show ?thesis by (auto simp: algebra_simps)
qed

lemma rebuilt_props:
  "dogsJ (rebuilt t) = 0 \<and> plainKeysJ (rebuilt t) \<and>
   (\<forall>d md. d + int (height t) \<le> md \<longrightarrow> d + int (heightJ (rebuilt t)) \<le> md)"
proof (induction t)
  case (ALeaf p)
  show ?case by simp
next
  case (AArray a ts)
  have h: "\<forall>d md. d + int (height (AArray a ts)) \<le> md \<longrightarrow>
             d + int (heightJ (Array (map rebuilt ts))) \<le> md"
    unfolding height_array_le heightJ_array_le using AArray.IH by auto
  from AArray.IH h show ?case by (simp del: height.simps heightJ.simps)
next
  case (AObject a es)
  let ?out = "foldl (\<lambda>acc e. setProp acc (fst e) (rebuilt (snd e))) [] es"
  have props: "set ?out \<subseteq> (\<lambda>e. (fst e, rebuilt (snd e))) ` set es"
    "distinct (map fst ?out)" "''__proto__'' \<notin> fst ` set ?out"
    using foldl_setProp_props [of rebuilt "[]" es] by auto
  have child: "\<exists>e\<in>set es. snd x = rebuilt (snd e)" if "x \<in> set ?out" for x
  proof -
    from props(1) that have "x \<in> (\<lambda>e. (fst e, rebuilt (snd e))) ` set es" by blast
    then obtain e where "e \<in> set es" "x = (fst e, rebuilt (snd e))" by blast
    then have "e \<in> set es \<and> snd x = rebuilt (snd e)" by simp
    then show ?thesis by blast
  qed
  have ih: "dogsJ (rebuilt (snd e)) = 0 \<and> plainKeysJ (rebuilt (snd e)) \<and>
            (\<forall>d md. d + int (height (snd e)) \<le> md \<longrightarrow> d + int (heightJ (rebuilt (snd e))) \<le> md)"
    if "e \<in> set es" for e
  proof -
    have s: "snd e \<in> Basic_BNFs.snds e" by (cases e) simp
    show ?thesis by (rule AObject.IH [OF that s])
  qed
  have 1: "dogsJ (Object ?out) = 0" using child ih by fastforce
  have 2: "plainKeysJ (Object ?out)" using child ih props(2,3) by fastforce
  have 3: "\<forall>d md. d + int (height (AObject a es)) \<le> md \<longrightarrow> d + int (heightJ (Object ?out)) \<le> md"
    unfolding height_object_le heightJ_object_le using child ih by fastforce
  from 1 2 3 show ?case by (simp del: height.simps heightJ.simps dogsJ.simps plainKeysJ.simps)
qed

lemma rebuilt_height:
  "d + int (height t) \<le> md \<Longrightarrow> d + int (heightJ (rebuilt t)) \<le> md"
  using rebuilt_props [of t] by blast

subsection \<open>Every value can be stored\<close>

lemma contents_addrs: "map fst (contents t) = addrs t"
proof (induction t)
  case (ALeaf p)
  show ?case by simp
next
  case (AArray a ts)
  have "map (\<lambda>t. map fst (contents t)) ts = map addrs ts"
    by (rule map_cong [OF refl]) (rule AArray.IH)
  then have "concat (map (\<lambda>t. map fst (contents t)) ts) = concat (map addrs ts)" by (rule arg_cong)
  then show ?case by (simp add: map_concat comp_def)
next
  case (AObject a es)
  have "map (\<lambda>e. map fst (contents (snd e))) es = map (\<lambda>e. addrs (snd e)) es"
  proof (rule map_cong [OF refl])
    fix e assume e: "e \<in> set es"
    have s: "snd e \<in> Basic_BNFs.snds e" by (cases e) simp
    show "map fst (contents (snd e)) = addrs (snd e)" by (rule AObject.IH [OF e s])
  qed
  then have "concat (map (\<lambda>e. map fst (contents (snd e))) es) = concat (map (\<lambda>e. addrs (snd e)) es)"
    by (rule arg_cong)
  then show ?case by (simp add: map_concat comp_def)
qed

lemma inHeap_contents:
  "distinct (map fst al) \<Longrightarrow> set (contents t) \<subseteq> set al \<Longrightarrow>
   inHeap (\<lambda>a. case map_of al a of Some c \<Rightarrow> c | None \<Rightarrow> ArrayOf []) t"
proof (induction t)
  case (ALeaf p)
  show ?case by simp
next
  case (AArray a ts)
  have "(a, ArrayOf (map root ts)) \<in> set al" using AArray.prems by simp
  with AArray.prems(1) have 1: "map_of al a = Some (ArrayOf (map root ts))" by simp
  have 2: "inHeap (\<lambda>a. case map_of al a of Some c \<Rightarrow> c | None \<Rightarrow> ArrayOf []) t" if "t \<in> set ts" for t
    using AArray.IH [OF that AArray.prems(1)] AArray.prems(2) that by auto
  from 1 2 show ?case by simp
next
  case (AObject a es)
  have "(a, ObjectOf (map (\<lambda>e. (fst e, root (snd e))) es)) \<in> set al" using AObject.prems by simp
  with AObject.prems(1) have 1: "map_of al a = Some (ObjectOf (map (\<lambda>e. (fst e, root (snd e))) es))"
    by simp
  have 2: "inHeap (\<lambda>a. case map_of al a of Some c \<Rightarrow> c | None \<Rightarrow> ArrayOf []) (snd e)"
    if "e \<in> set es" for e
  proof -
    have s: "snd e \<in> Basic_BNFs.snds e" by (cases e) simp
    have "set (contents (snd e)) \<subseteq> set al" using AObject.prems(2) that by auto
    from AObject.IH [OF that s AObject.prems(1) this] show ?thesis .
  qed
  from 1 2 show ?case by simp
qed

lemma inHeap_heapOf: "distinct (addrs t) \<Longrightarrow> inHeap (heapOf t) t"
  unfolding heapOf_def by (rule inHeap_contents) (simp_all add: contents_addrs)

lemma layout_list:
  assumes "\<And>x n. x \<in> set xs \<Longrightarrow>
             \<exists>t. erase t = x \<and> distinct (addrs t) \<and> set (addrs t) \<subseteq> {n ..< n + containers x}"
  shows "\<exists>ts. map erase ts = xs \<and> distinct (concat (map addrs ts)) \<and>
              set (concat (map addrs ts)) \<subseteq> {n ..< n + sum_list (map containers xs)}"
  using assms
proof (induction xs arbitrary: n)
  case Nil
  have "map erase [] = [] \<and> distinct (concat (map addrs [])) \<and>
        set (concat (map addrs [])) \<subseteq> {n ..< n + sum_list (map containers [])}" by simp
  then show ?case by (rule exI [where x = "[]"])
next
  case (Cons x xs)
  from Cons.prems [of x n] obtain t where
    t: "erase t = x" "distinct (addrs t)" "set (addrs t) \<subseteq> {n ..< n + containers x}" by auto
  from Cons.IH [of "n + containers x"] Cons.prems obtain ts where
    ts: "map erase ts = xs" "distinct (concat (map addrs ts))"
        "set (concat (map addrs ts)) \<subseteq> {n + containers x ..< n + containers x + sum_list (map containers xs)}"
    by auto
  from t(3) have a: "\<forall>y\<in>set (addrs t). y < n + containers x" by auto
  from ts(3) have b: "\<forall>y\<in>set (concat (map addrs ts)). n + containers x \<le> y" by auto
  from a b have disj: "set (addrs t) \<inter> set (concat (map addrs ts)) = {}" by fastforce
  have s1: "set (addrs t) \<subseteq> {n ..< n + sum_list (map containers (x # xs))}"
    using t(3) by auto
  have s2: "set (concat (map addrs ts)) \<subseteq> {n ..< n + sum_list (map containers (x # xs))}"
    using ts(3) by auto
  have "map erase (t # ts) = x # xs \<and> distinct (concat (map addrs (t # ts))) \<and>
        set (concat (map addrs (t # ts))) \<subseteq> {n ..< n + sum_list (map containers (x # xs))}"
    using t(1,2) ts(1,2) disj s1 s2 by simp
  then show ?case by (rule exI [where x = "t # ts"])
qed

lemma layout_entries:
  assumes "\<And>e n. e \<in> set es \<Longrightarrow>
             \<exists>t. erase t = snd e \<and> distinct (addrs t) \<and> set (addrs t) \<subseteq> {n ..< n + containers (snd e)}"
  shows "\<exists>ts. map (\<lambda>e. (fst e, erase (snd e))) ts = es \<and>
              distinct (concat (map (\<lambda>e. addrs (snd e)) ts)) \<and>
              set (concat (map (\<lambda>e. addrs (snd e)) ts))
                \<subseteq> {n ..< n + sum_list (map (\<lambda>e. containers (snd e)) es)}"
  using assms
proof (induction es arbitrary: n)
  case Nil
  have "map (\<lambda>e. (fst e, erase (snd e))) [] = [] \<and>
        distinct (concat (map (\<lambda>e. addrs (snd e)) [])) \<and>
        set (concat (map (\<lambda>e. addrs (snd e)) []))
          \<subseteq> {n ..< n + sum_list (map (\<lambda>e. containers (snd e)) [])}" by simp
  then show ?case by (rule exI [where x = "[]"])
next
  case (Cons e es)
  from Cons.prems [of e n] obtain t where
    t: "erase t = snd e" "distinct (addrs t)" "set (addrs t) \<subseteq> {n ..< n + containers (snd e)}"
    by auto
  from Cons.IH [of "n + containers (snd e)"] Cons.prems obtain ts where
    ts: "map (\<lambda>e. (fst e, erase (snd e))) ts = es"
        "distinct (concat (map (\<lambda>e. addrs (snd e)) ts))"
        "set (concat (map (\<lambda>e. addrs (snd e)) ts))
           \<subseteq> {n + containers (snd e) ..< n + containers (snd e) + sum_list (map (\<lambda>e. containers (snd e)) es)}"
    by auto
  from t(3) have a: "\<forall>y\<in>set (addrs t). y < n + containers (snd e)" by auto
  from ts(3) have b: "\<forall>y\<in>set (concat (map (\<lambda>e. addrs (snd e)) ts)). n + containers (snd e) \<le> y"
    by auto
  from a b have disj: "set (addrs t) \<inter> set (concat (map (\<lambda>e. addrs (snd e)) ts)) = {}"
    by fastforce
  have s1: "set (addrs t) \<subseteq> {n ..< n + sum_list (map (\<lambda>e. containers (snd e)) (e # es))}"
    using t(3) by auto
  have s2: "set (concat (map (\<lambda>e. addrs (snd e)) ts))
              \<subseteq> {n ..< n + sum_list (map (\<lambda>e. containers (snd e)) (e # es))}"
    using ts(3) by auto
  have "map (\<lambda>e. (fst e, erase (snd e))) ((fst e, t) # ts) = e # es \<and>
        distinct (concat (map (\<lambda>e. addrs (snd e)) ((fst e, t) # ts))) \<and>
        set (concat (map (\<lambda>e. addrs (snd e)) ((fst e, t) # ts)))
          \<subseteq> {n ..< n + sum_list (map (\<lambda>e. containers (snd e)) (e # es))}"
    using t(1,2) ts(1,2) disj s1 s2 by simp
  then show ?case by (rule exI [where x = "(fst e, t) # ts"])
qed

lemma layout_tree:
  "\<exists>t. erase t = j \<and> distinct (addrs t) \<and> set (addrs t) \<subseteq> {n ..< n + containers j}"
proof (induction j arbitrary: n)
  case (Leaf p)
  have "erase (ALeaf p) = Leaf p \<and> distinct (addrs (ALeaf p)) \<and>
        set (addrs (ALeaf p)) \<subseteq> {n ..< n + containers (Leaf p)}" by simp
  then show ?case by (rule exI [where x = "ALeaf p"])
next
  case (Array xs)
  from layout_list [of xs "Suc n"] Array.IH obtain ts where
    ts: "map erase ts = xs" "distinct (concat (map addrs ts))"
        "set (concat (map addrs ts)) \<subseteq> {Suc n ..< Suc n + sum_list (map containers xs)}"
    by blast
  have "erase (AArray n ts) = Array xs \<and> distinct (addrs (AArray n ts)) \<and>
        set (addrs (AArray n ts)) \<subseteq> {n ..< n + containers (Array xs)}"
    using ts by (auto simp: subset_iff)
  then show ?case by (rule exI [where x = "AArray n ts"])
next
  case (Object es)
  have "\<exists>t. erase t = snd e \<and> distinct (addrs t) \<and> set (addrs t) \<subseteq> {m ..< m + containers (snd e)}"
    if "e \<in> set es" for e m
  proof -
    have s: "snd e \<in> Basic_BNFs.snds e" by (cases e) simp
    show ?thesis by (rule Object.IH [OF that s])
  qed
  from layout_entries [of es "Suc n", OF this] obtain ts where
    ts: "map (\<lambda>e. (fst e, erase (snd e))) ts = es"
        "distinct (concat (map (\<lambda>e. addrs (snd e)) ts))"
        "set (concat (map (\<lambda>e. addrs (snd e)) ts))
           \<subseteq> {Suc n ..< Suc n + sum_list (map (\<lambda>e. containers (snd e)) es)}"
    by blast
  have "erase (AObject n ts) = Object es \<and> distinct (addrs (AObject n ts)) \<and>
        set (addrs (AObject n ts)) \<subseteq> {n ..< n + containers (Object es)}"
    using ts by (auto simp: subset_iff)
  then show ?case by (rule exI [where x = "AObject n ts"])
qed

lemma layout_exists:
  "\<exists>h' t'. inHeap h' t' \<and> erase t' = j \<and> distinct (addrs t')"
proof -
  from layout_tree [of j 0] obtain t where t: "erase t = j" "distinct (addrs t)" by blast
  from inHeap_heapOf [OF t(2)] t show ?thesis by blast
qed

subsection \<open>A second call on returned data\<close>

text \<open>
  C10: whenever a call succeeds, the returned data holds no scalar equal to \<^verbatim>\<open>'dog'\<close>
  anywhere. The returned data can be stored (its containers are new and each is stored
  once), and however it is stored, a second call on it with the same limits succeeds,
  returns the same data and reports \<open>replacementCount = 0\<close>.
\<close>

theorem C10_idempotent_on_outputs:
  assumes "replaceDogWithCat h v maxReplacements c vis 0 maxDepth = Inr (r, vis1)"
  shows "dogsJ (data r) = 0 \<and>
         (\<exists>h' t'. inHeap h' t' \<and> erase t' = data r \<and> distinct (addrs t')) \<and>
         (\<forall>h' t'. inHeap h' t' \<and> erase t' = data r \<and> distinct (addrs t') \<longrightarrow>
            replaceDogWithCat h' (root t') maxReplacements 0 {} 0 maxDepth =
              Inr (\<lparr>data = data r, replacementCount = 0\<rparr>, set (addrs t')))"
proof -
  from success_tree [OF assms] obtain t where
    t: "data r = rebuilt t" "0 + int (height t) \<le> maxDepth" by auto
  from rebuilt_props [of t] rebuilt_height [OF t(2)] t(1)
  have out: "dogsJ (data r) = 0" "plainKeysJ (data r)"
    "0 + int (heightJ (data r)) \<le> maxDepth" by simp_all
  have again: "replaceDogWithCat h' (root t') maxReplacements 0 {} 0 maxDepth =
              Inr (\<lparr>data = data r, replacementCount = 0\<rparr>, set (addrs t'))"
    if l: "inHeap h' t' \<and> erase t' = data r \<and> distinct (addrs t')" for h' t'
  proof -
    from l have e: "erase t' = data r" by simp
    have d': "dogs t' = 0" using out(1) e erase_dogs [of t'] by simp
    have p': "plainKeys t'" using out(2) e erase_plain [of t'] by simp
    have h': "0 + int (height t') \<le> maxDepth" using out(3) e erase_height [of t'] by simp
    have "replaceDogWithCat h' (root t') maxReplacements 0 {} 0 maxDepth =
            Inr (\<lparr>data = rebuilt t', replacementCount = 0 + int (dogs t')\<rparr>, {} \<union> set (addrs t'))"
      using l h' d' by (intro tree_success) auto
    moreover have "rebuilt t' = erase t'"
      using p' d' by (simp add: rebuilt_plain replaced_no_dog)
    ultimately show ?thesis using d' e by simp
  qed
  from out(1) layout_exists [of "data r"] again show ?thesis by blast
qed

text \<open>
  The theorem at the data returned for \<^verbatim>\<open>{"pet": "dog", "dog": ["hotdog", "dog", 42]}\<close>.
\<close>

theorem C10_idempotent_on_outputs_witness:
  "replaceDogWithCat catsHeap (Ref 0) 100 0 {} 0 100 =
     Inr (\<lparr>data = Object [(''pet'', Leaf (Str ''cat'')),
            (''dog'', Array [Leaf (Str ''hotdog''), Leaf (Str ''cat''), Leaf (Num 42)])],
          replacementCount = 0\<rparr>, {0, 1})"
proof -
  have l: "inHeap catsHeap catsTree \<and>
           erase catsTree = Object [(''pet'', Leaf (Str ''cat'')),
             (''dog'', Array [Leaf (Str ''hotdog''), Leaf (Str ''cat''), Leaf (Num 42)])] \<and>
           distinct (addrs catsTree)"
    by (simp add: catsHeap_def catsTree_def)
  have r: "root catsTree = Ref 0" "set (addrs catsTree) = {0, 1}"
    by (simp_all add: catsTree_def)
  from C10_idempotent_on_outputs [OF pets_result] l
  have "replaceDogWithCat catsHeap (root catsTree) 100 0 {} 0 100 =
     Inr (\<lparr>data = Object [(''pet'', Leaf (Str ''cat'')),
            (''dog'', Array [Leaf (Str ''hotdog''), Leaf (Str ''cat''), Leaf (Num 42)])],
          replacementCount = 0\<rparr>, set (addrs catsTree))"
    by simp
  with r show ?thesis by simp
qed

end
